theory Spec2Isabelle
  imports Main
begin

section \<open>The release script \<^verbatim>\<open>scripts/ci/publish.ts\<close>\<close>

text \<open>
  The script builds a graph of the workspace's packages from their manifests, looks for
  circular dependencies, finds the packages affected by the latest changes, orders them
  and tests or publishes them.

  Conventions of the embedding.
  \<^item> A JavaScript object used as a dictionary (\<^verbatim>\<open>{ [name: string]: T }\<close>) is an association
    list in insertion order, which is the order \<^verbatim>\<open>Object.values\<close>, \<^verbatim>\<open>Object.entries\<close> and
    \<^verbatim>\<open>Object.keys\<close> enumerate. Keys are taken not to be canonical array indices (which
    JavaScript enumerates first). The list holds the properties that the object owns; a
    lookup that can reach a property inherited from \<^verbatim>\<open>Object.prototype\<close> is modelled with
    the names of that object (\<open>objectPrototypeNames\<close>).
  \<^item> A string is a list of characters, each a code unit below 256.
  \<^item> \<^verbatim>\<open>throw\<close> is the left injection of a sum type.
  \<^item> The JavaScript numbers of the script are parsed from digit strings and incremented;
    they are the doubles whose value is a natural, with the rounding of IEEE 754, and the
    two infinities.
  \<^item> The processes the script starts are functions given to the model: a shell for the
    commands whose output is read, a world for the commands that are run for their effect.
    Of the functions of Node.js, \<^verbatim>\<open>path.dirname\<close> is modelled for POSIX paths and
    \<^verbatim>\<open>path.join\<close> is a parameter; the topological sort is a parameter of
    \<^verbatim>\<open>getPublishOrder\<close>.
  \<^item> Of the console output, the messages of the graph construction are modelled; the
    pauses before publishing are not.
\<close>

subsection \<open>Objects as insertion-ordered dictionaries\<close>

type_synonym 'v obj = "(string \<times> 'v) list"

text \<open>\<^verbatim>\<open>o[k]\<close>, with \<^verbatim>\<open>undefined\<close> as \<open>None\<close>.\<close>

definition obj_get :: "'v obj \<Rightarrow> string \<Rightarrow> 'v option" where
  "obj_get ob k = map_of ob k"

text \<open>\<^verbatim>\<open>o[k] = v\<close>: an existing key keeps its position, a new key goes last.\<close>

fun obj_set :: "'v obj \<Rightarrow> string \<Rightarrow> 'v \<Rightarrow> 'v obj" where
  "obj_set [] k v = [(k, v)]"
| "obj_set ((k', v') # ob) k v =
     (if k' = k then (k, v) # ob else (k', v') # obj_set ob k v)"

text \<open>In-place mutation of the object stored under \<open>k\<close> (\<^verbatim>\<open>o[k].f.push(x)\<close>).\<close>

fun obj_modify :: "'v obj \<Rightarrow> string \<Rightarrow> ('v \<Rightarrow> 'v) \<Rightarrow> 'v obj" where
  "obj_modify [] k f = []"
| "obj_modify ((k', v') # ob) k f =
     (if k' = k then (k', f v') # ob else (k', v') # obj_modify ob k f)"

definition obj_keys :: "'v obj \<Rightarrow> string list" where
  "obj_keys ob = map fst ob"

definition obj_values :: "'v obj \<Rightarrow> 'v list" where
  "obj_values ob = map snd ob"

text \<open>
  The property names of \<^verbatim>\<open>Object.prototype\<close>, which every object created by a literal
  inherits. Their values are functions, and for \<^verbatim>\<open>__proto__\<close> the prototype of the object:
  all of them are truthy. An assignment to \<^verbatim>\<open>__proto__\<close> sets the prototype of the object
  and adds no key; an assignment to one of the other names adds a key as for any name.
\<close>

definition objectPrototypeNames :: "string list" where
  "objectPrototypeNames =
     [''constructor'', ''__defineGetter__'', ''__defineSetter__'', ''hasOwnProperty'',
      ''__lookupGetter__'', ''__lookupSetter__'', ''isPrototypeOf'', ''propertyIsEnumerable'',
      ''toString'', ''valueOf'', ''__proto__'', ''toLocaleString'']"

text \<open>\<^verbatim>\<open>s.startsWith(p)\<close>\<close>

definition startsWith :: "string \<Rightarrow> string \<Rightarrow> bool" where
  "startsWith s p = (take (length p) s = p)"

subsection \<open>Data model\<close>

text \<open>
  The fields of a parsed \<^verbatim>\<open>package.json\<close> that the script reads. \<^verbatim>\<open>dependencies\<close>,
  \<^verbatim>\<open>devDependencies\<close> and \<^verbatim>\<open>scripts\<close> may be absent.
\<close>

record PackageJson =
  pj_version :: string
  pj_dependencies :: "string obj option"
  pj_devDependencies :: "string obj option"
  pj_scripts :: "string obj option"

record RawPackage =
  raw_path :: string
  raw_packageJson :: PackageJson

type_synonym RawPackages = "RawPackage obj"

record Package =
  name :: string
  path :: string
  version :: string
  usedBy :: "string list"
  usedByDev :: "string list"
  uses :: "string list"
  usesDev :: "string list"
  packageJson :: PackageJson

type_synonym Packages = "Package obj"

text \<open>
  The errors of a run: a property read from \<^verbatim>\<open>undefined\<close>, the three errors the script
  throws itself (the third with the command, its directory and the message of the
  failed process), and the error of the topological sort.
\<close>

datatype error =
    TypeError
  | NoChangesDetected
  | CircularDependencies "string list list"
  | CommandFailed string string string
  | CyclesDetected

subsection \<open>Graph construction\<close>

definition getPrismaDependencies :: "string obj option \<Rightarrow> string list" where
  "getPrismaDependencies dependencies =
     (case dependencies of
        None \<Rightarrow> []
      | Some deps \<Rightarrow> filter (\<lambda>d. startsWith d ''@prisma'') (obj_keys deps))"

text \<open>
  The first pass of \<^verbatim>\<open>getPackageDependencies\<close>: the \<^verbatim>\<open>reduce\<close> over the entries. The raw
  packages are the object that \<^verbatim>\<open>getPackages\<close> fills by assignment, so \<^verbatim>\<open>__proto__\<close> is not
  one of its keys, and every entry becomes a key of the cache.
\<close>

definition newPackage :: "string \<Rightarrow> RawPackage \<Rightarrow> Package" where
  "newPackage nm pkg =
     \<lparr> name = nm,
       path = raw_path pkg,
       version = pj_version (raw_packageJson pkg),
       usedBy = [],
       usedByDev = [],
       uses = getPrismaDependencies (pj_dependencies (raw_packageJson pkg)),
       usesDev = getPrismaDependencies (pj_devDependencies (raw_packageJson pkg)),
       packageJson = raw_packageJson pkg \<rparr>"

definition initialCache :: "RawPackages \<Rightarrow> Packages" where
  "initialCache packages =
     foldl (\<lambda>acc (nm, pkg). obj_set acc nm (newPackage nm pkg)) [] packages"

text \<open>
  The second pass. Its state is the cache, whose \<^verbatim>\<open>usedBy\<close> and \<^verbatim>\<open>usedByDev\<close> lists
  grow, and the lines written by \<^verbatim>\<open>console.info\<close>. The names looked up in the cache start
  with \<^verbatim>\<open>@prisma\<close>, and the cache inherits no property of such a name: \<^verbatim>\<open>packageCache[d]\<close>
  is truthy exactly when \<open>d\<close> is a key.
\<close>

type_synonym link_state = "Packages \<times> string list"

definition skipping :: "string \<Rightarrow> string" where
  "skipping d = ''Skipping '' @ d @ '' as it's not in this workspace''"

definition linkDependency :: "string \<Rightarrow> link_state \<Rightarrow> string \<Rightarrow> link_state" where
  "linkDependency pkgName st dependency =
     (case obj_get (fst st) dependency of
        Some _ \<Rightarrow>
          (obj_modify (fst st) dependency (\<lambda>q. q\<lparr>usedBy := usedBy q @ [pkgName]\<rparr>), snd st)
      | None \<Rightarrow> (fst st, snd st @ [skipping dependency]))"

definition linkDevDependency :: "string \<Rightarrow> link_state \<Rightarrow> string \<Rightarrow> link_state" where
  "linkDevDependency pkgName st devDependency =
     (case obj_get (fst st) devDependency of
        Some _ \<Rightarrow>
          (obj_modify (fst st) devDependency
             (\<lambda>q. q\<lparr>usedByDev := usedByDev q @ [pkgName]\<rparr>), snd st)
      | None \<Rightarrow> (fst st, snd st @ [skipping devDependency]))"

text \<open>
  The body of the outer loop. The loop runs over the objects of the cache; the fields
  it reads from them (\<^verbatim>\<open>name\<close>, \<^verbatim>\<open>uses\<close>, \<^verbatim>\<open>usesDev\<close>) are never written after the
  first pass, so they are read from the first pass's cache.
\<close>

definition linkPackage :: "link_state \<Rightarrow> Package \<Rightarrow> link_state" where
  "linkPackage st pkg =
     foldl (linkDevDependency (name pkg))
       (foldl (linkDependency (name pkg)) st (uses pkg))
       (usesDev pkg)"

definition getPackageDependencies_run :: "RawPackages \<Rightarrow> link_state" where
  "getPackageDependencies_run packages =
     (let packageCache = initialCache packages
      in foldl linkPackage (packageCache, []) (obj_values packageCache))"

definition getPackageDependencies :: "RawPackages \<Rightarrow> Packages" where
  "getPackageDependencies packages = fst (getPackageDependencies_run packages)"

subsection \<open>Circular dependencies\<close>

definition intersection :: "'a list \<Rightarrow> 'a list \<Rightarrow> 'a list" where
  "intersection arr1 arr2 = filter (\<lambda>v. v \<in> set arr2) arr1"

definition circlesOf :: "Package \<Rightarrow> string list" where
  "circlesOf pkg = intersection (uses pkg @ usesDev pkg) (usedBy pkg @ usedByDev pkg)"

definition getCircularDependencies :: "Packages \<Rightarrow> string list list" where
  "getCircularDependencies packages =
     foldl (\<lambda>circularDeps pkg.
              if length (circlesOf pkg) > 0 then circularDeps @ [circlesOf pkg]
              else circularDeps)
       [] (obj_values packages)"

subsection \<open>The changes of the latest commits\<close>

record Commit =
  date :: int
  dir :: string
  hash :: string
  isMergeCommit :: bool
  parentCommits :: "string list"

text \<open>
  A shell command that is run for its output: from the working directory and the command
  line to the standard output, or to the message of the failure.
\<close>

type_synonym shell = "string \<Rightarrow> string \<Rightarrow> string + string"

definition runResult :: "shell \<Rightarrow> string \<Rightarrow> string \<Rightarrow> error + string" where
  "runResult sh cwd cmd =
     (case sh cwd cmd of
        Inr stdout \<Rightarrow> Inr stdout
      | Inl message \<Rightarrow> Inl (CommandFailed cmd cwd message))"

text \<open>\<^verbatim>\<open>xs.join(sep)\<close>\<close>

fun joinWith :: "string \<Rightarrow> string list \<Rightarrow> string" where
  "joinWith sep [] = []"
| "joinWith sep [x] = x"
| "joinWith sep (x # y # ys) = x @ sep @ joinWith sep (y # ys)"

text \<open>
  \<^verbatim>\<open>s.trim()\<close>: the white space and line terminators of JavaScript among the code units
  below 256 are tab, line feed, vertical tab, form feed, carriage return, space and
  no-break space.
\<close>

definition isWhiteSpace :: "char \<Rightarrow> bool" where
  "isWhiteSpace c \<longleftrightarrow>
     c \<in> set [CHR 0x09, CHR 0x0A, CHR 0x0B, CHR 0x0C, CHR 0x0D, CHR 0x20, CHR 0xA0]"

definition trim :: "string \<Rightarrow> string" where
  "trim s = rev (dropWhile isWhiteSpace (rev (dropWhile isWhiteSpace s)))"

text \<open>\<^verbatim>\<open>s.split(c)\<close> for a separator of one character: never the empty list.\<close>

fun splitOn :: "char \<Rightarrow> string \<Rightarrow> string list" where
  "splitOn sep [] = [[]]"
| "splitOn sep (c # cs) =
     (if c = sep then [] # splitOn sep cs
      else (case splitOn sep cs of
              [] \<Rightarrow> [[c]]
            | w # ws \<Rightarrow> (c # w) # ws))"

definition diffTreeCommand :: "Commit \<Rightarrow> string" where
  "diffTreeCommand commit =
     (let hashes = (if isMergeCommit commit then joinWith '' '' (parentCommits commit)
                    else hash commit)
      in ''git diff-tree --no-commit-id --name-only -r '' @ hashes)"

text \<open>\<^verbatim>\<open>path.join\<close> is a parameter, \<open>pathJoin\<close>.\<close>

definition getChangesFromCommit ::
    "shell \<Rightarrow> (string \<Rightarrow> string \<Rightarrow> string) \<Rightarrow> Commit \<Rightarrow> error + string list" where
  "getChangesFromCommit sh pathJoin commit =
     (case runResult sh (dir commit) (diffTreeCommand commit) of
        Inl e \<Rightarrow> Inl e
      | Inr changes \<Rightarrow>
          if length (trim changes) > 0
          then Inr (map (\<lambda>change. pathJoin (dir commit) change) (splitOn CHR 0x0A changes))
          else Inl NoChangesDetected)"

text \<open>\<^verbatim>\<open>flatten\<close>\<close>

definition flatten :: "'a list list \<Rightarrow> 'a list" where
  "flatten arr = foldl (\<lambda>acc val. acc @ val) [] arr"

text \<open>
  \<^verbatim>\<open>await Promise.all(...)\<close> over results: the values in order, or an error. When more
  than one of the promises fails, JavaScript gives the error of the one that fails first
  in time; the processes have no duration here, and the error is that of the first in
  the list.
\<close>

fun awaitAll :: "(error + 'a) list \<Rightarrow> error + 'a list" where
  "awaitAll [] = Inr []"
| "awaitAll (Inl e # rs) = Inl e"
| "awaitAll (Inr v # rs) = (case awaitAll rs of Inl e \<Rightarrow> Inl e | Inr vs \<Rightarrow> Inr (v # vs))"

text \<open>
  \<^verbatim>\<open>getLatestChanges\<close>, from the array \<open>commits\<close> of the latest commits of the three
  repositories as it is after the sort by date.
\<close>

definition getLatestChanges ::
    "shell \<Rightarrow> (string \<Rightarrow> string \<Rightarrow> string) \<Rightarrow> bool \<Rightarrow> Commit list \<Rightarrow> error + string list" where
  "getLatestChanges sh pathJoin allRepos commits =
     (if allRepos
      then (case awaitAll (map (getChangesFromCommit sh pathJoin) commits) of
              Inl e \<Rightarrow> Inl e
            | Inr changes \<Rightarrow> Inr (flatten changes))
      else (case commits of
              [] \<Rightarrow> Inl TypeError
            | latestCommit # _ \<Rightarrow> getChangesFromCommit sh pathJoin latestCommit))"

subsection \<open>Packages affected by a change\<close>

text \<open>
  \<^verbatim>\<open>path.dirname\<close> of Node.js for POSIX paths (library code): the scan runs from the last
  character down to index 1, skips trailing slashes and stops at the next slash.
\<close>

fun dirname_scan :: "string \<Rightarrow> nat \<Rightarrow> bool \<Rightarrow> nat option" where
  "dirname_scan p 0 matchedSlash = None"
| "dirname_scan p (Suc i) matchedSlash =
     (if p ! Suc i = CHR ''/''
      then (if \<not> matchedSlash then Some (Suc i) else dirname_scan p i matchedSlash)
      else dirname_scan p i False)"

definition dirname :: "string \<Rightarrow> string" where
  "dirname p =
     (if length p = 0 then ''.''
      else let hasRoot = (p ! 0 = CHR ''/'') in
        case dirname_scan p (length p - 1) True of
          None \<Rightarrow> (if hasRoot then ''/'' else ''.'')
        | Some e \<Rightarrow> (if hasRoot \<and> e = 1 then ''//'' else take e p))"


text \<open>
  The filter of \<^verbatim>\<open>getPackagesAffectedByChange\<close>: \<^verbatim>\<open>changes.find\<close> returns the first change
  that starts with the directory of the manifest, or \<^verbatim>\<open>undefined\<close>; the filter keeps the
  package when that value is truthy.
\<close>

definition isChanged :: "string list \<Rightarrow> Package \<Rightarrow> bool" where
  "isChanged changes p =
     (case List.find (\<lambda>c. startsWith c (dirname (path p))) changes of
        None \<Rightarrow> False
      | Some c \<Rightarrow> c \<noteq> [])"

text \<open>
  The affected set is an object created by the literal \<^verbatim>\<open>{}\<close>, and \<^verbatim>\<open>affectedPackages[k]\<close>
  reads the property \<open>k\<close> that the object owns or, when it owns none, the one it inherits.
  Its prototype is \<^verbatim>\<open>Object.prototype\<close>, unless the \<^verbatim>\<open>reduce\<close> has assigned a package to
  \<^verbatim>\<open>__proto__\<close>: then the prototype is that package, whose own prototype is
  \<^verbatim>\<open>Object.prototype\<close>. The state of the \<^verbatim>\<open>reduce\<close> is the prototype (\<open>None\<close> for
  \<^verbatim>\<open>Object.prototype\<close>) and the properties that the object owns.
\<close>

type_synonym affected_object = "Package option \<times> Packages"

definition assignByName :: "affected_object \<Rightarrow> Package \<Rightarrow> affected_object" where
  "assignByName acc p =
     (if name p = ''__proto__'' then (Some p, snd acc)
      else (fst acc, obj_set (snd acc) (name p) p))"

text \<open>
  The fields of a package whose value is truthy: the arrays and the manifest always, a
  string when it is not empty.
\<close>

definition truthyFields :: "Package \<Rightarrow> string list" where
  "truthyFields p =
     [''usedBy'', ''usedByDev'', ''uses'', ''usesDev'', ''packageJson'']
     @ (if name p \<noteq> [] then [''name''] else [])
     @ (if path p \<noteq> [] then [''path''] else [])
     @ (if version p \<noteq> [] then [''version''] else [])"

text \<open>
  Whether \<^verbatim>\<open>affectedPackages[k]\<close> is truthy: the object owns \<open>k\<close> (the value is a package),
  or inherits it from its prototype or from \<^verbatim>\<open>Object.prototype\<close>.
\<close>

definition inheritedTruthy :: "Package option \<Rightarrow> string \<Rightarrow> bool" where
  "inheritedTruthy proto k \<longleftrightarrow>
     k \<in> set objectPrototypeNames
     \<or> (case proto of None \<Rightarrow> False | Some p \<Rightarrow> k \<in> set (truthyFields p))"

definition truthyProperty :: "Package option \<Rightarrow> Packages \<Rightarrow> string \<Rightarrow> bool" where
  "truthyProperty proto ob k \<longleftrightarrow> obj_get ob k \<noteq> None \<or> inheritedTruthy proto k"

text \<open>The number of packages of the graph that are not in the affected set yet.\<close>

definition missing :: "Packages \<Rightarrow> Packages \<Rightarrow> nat" where
  "missing packages affected =
     length (filter (\<lambda>k. obj_get affected k = None) (obj_keys packages))"

text \<open>
  The \<^verbatim>\<open>for\<close> loops of \<^verbatim>\<open>addDependants\<close> over a list of names, with the affected set
  passed through; \<open>proto\<close> is the prototype of the affected set, which the loops do not
  change. A name for which \<^verbatim>\<open>affectedPackages[dependency]\<close> is falsy is added and its
  package's dependants are added recursively: first those in \<^verbatim>\<open>usedBy\<close>, then those in
  \<^verbatim>\<open>usedByDev\<close>. A name that the affected set owns or inherits is skipped. When the name
  is not a key of \<^verbatim>\<open>packages\<close>, \<^verbatim>\<open>packages[dependency]\<close> is \<^verbatim>\<open>undefined\<close> (the name is not one
  of \<^verbatim>\<open>Object.prototype\<close> either, or it would have been skipped), and the recursive call
  reads \<^verbatim>\<open>usedBy\<close> of \<^verbatim>\<open>undefined\<close> and throws.
\<close>

function (sequential) addDependants_loop ::
    "Package option \<Rightarrow> Packages \<Rightarrow> Packages \<Rightarrow> string list \<Rightarrow> error + Packages" where
  "addDependants_loop proto packages affectedPackages [] = Inr affectedPackages"
| "addDependants_loop proto packages affectedPackages (dependency # rest) =
     (if truthyProperty proto affectedPackages dependency
      then addDependants_loop proto packages affectedPackages rest
      else case obj_get packages dependency of
        None \<Rightarrow> Inl TypeError
      | Some pkg \<Rightarrow>
          (case addDependants_loop proto packages (obj_set affectedPackages dependency pkg)
                  (usedBy pkg) of
             Inl e \<Rightarrow> Inl e
           | Inr affected1 \<Rightarrow>
               (case addDependants_loop proto packages affected1 (usedByDev pkg) of
                  Inl e \<Rightarrow> Inl e
                | Inr affected2 \<Rightarrow> addDependants_loop proto packages affected2 rest)))"
  by pat_completeness auto

text \<open>
  Termination: a recursive call either has a shorter list and the same affected set, or
  an affected set with more of the graph's packages in it. For the calls that receive the
  result of an earlier call this needs that a call never removes a key.
\<close>

lemma obj_get_obj_set: "obj_get (obj_set ob k v) k' = (if k' = k then Some v else obj_get ob k')"
  by (induction ob) (auto simp: obj_get_def)

lemma addDependants_loop_grows:
  "addDependants_loop_dom (proto, packages, affected, names) \<Longrightarrow>
   addDependants_loop proto packages affected names = Inr affected' \<Longrightarrow>
   obj_get affected k \<noteq> None \<Longrightarrow> obj_get affected' k \<noteq> None"
proof (induction proto packages affected names arbitrary: affected'
    rule: addDependants_loop.pinduct)
  case (1 proto packages affectedPackages)
  then show ?case by (simp add: addDependants_loop.psimps)
next
  case (2 proto packages affectedPackages dependency rest)
  show ?case
  proof (cases "truthyProperty proto affectedPackages dependency")
    case True
    with 2 show ?thesis by (simp add: addDependants_loop.psimps)
  next
    case False
    with 2(6) 2(1) obtain pkg a1 a2 where
      pkg: "obj_get packages dependency = Some pkg"
      and a1: "addDependants_loop proto packages (obj_set affectedPackages dependency pkg)
                 (usedBy pkg) = Inr a1"
      and a2: "addDependants_loop proto packages a1 (usedByDev pkg) = Inr a2"
      and a3: "addDependants_loop proto packages a2 rest = Inr affected'"
      by (auto simp: addDependants_loop.psimps split: option.splits sum.splits)
    have "obj_get (obj_set affectedPackages dependency pkg) k \<noteq> None"
      using 2(7) by (simp add: obj_get_obj_set)
    from 2(3)[OF False pkg a1 this] have "obj_get a1 k \<noteq> None" .
    from 2(4)[OF False pkg a1 a2 this] have "obj_get a2 k \<noteq> None" .
    from 2(5)[OF False pkg a1 a2 a3 this] show ?thesis .
  qed
qed

lemma missing_mono:
  assumes "\<And>k. obj_get a k \<noteq> None \<Longrightarrow> obj_get b k \<noteq> None"
  shows "missing packages b \<le> missing packages a"
proof -
  have "length (filter (\<lambda>k. obj_get b k = None) ks) \<le> length (filter (\<lambda>k. obj_get a k = None) ks)" for ks
  proof (induction ks)
    case Nil show ?case by simp
  next
    case (Cons k ks)
    from assms[of k] have "obj_get b k = None \<Longrightarrow> obj_get a k = None" by blast
    with Cons show ?case by auto
  qed
  then show ?thesis by (simp add: missing_def)
qed

lemma missing_obj_set:
  assumes "obj_get affected d = None" "obj_get packages d = Some pkg"
  shows "missing packages (obj_set affected d v) < missing packages affected"
proof -
  have d: "d \<in> set (obj_keys packages)"
    using assms(2) by (auto simp: obj_get_def obj_keys_def dest: map_of_SomeD intro: rev_image_eqI)
  have "length (filter (\<lambda>k. obj_get (obj_set affected d v) k = None) ks)
      < length (filter (\<lambda>k. obj_get affected k = None) ks)" if "d \<in> set ks" for ks
    using that
  proof (induction ks)
    case Nil then show ?case by simp
  next
    case (Cons k ks)
    have le: "length (filter (\<lambda>k. obj_get (obj_set affected d v) k = None) ks)
      \<le> length (filter (\<lambda>k. obj_get affected k = None) ks)"
      by (induction ks) (auto simp: obj_get_obj_set)
    show ?case
    proof (cases "k = d")
      case True
      then show ?thesis using le assms(1) by (simp add: obj_get_obj_set)
    next
      case False
      with Cons show ?thesis by (auto simp: obj_get_obj_set)
    qed
  qed
  from this[OF d] show ?thesis by (simp add: missing_def)
qed

termination addDependants_loop
proof (relation "measures [\<lambda>(proto, packages, affected, names). missing packages affected,
                          \<lambda>(proto, packages, affected, names). length names]", goal_cases)
  case 1
  then show ?case by simp
next
  case (2 proto packages affectedPackages dependency rest)
  then show ?case by simp
next
  case (3 proto packages affectedPackages dependency rest pkg)
  then have "obj_get affectedPackages dependency = None" by (simp add: truthyProperty_def)
  with 3 show ?case by (simp add: missing_obj_set)
next
  case (4 proto packages affectedPackages dependency rest pkg a1)
  then have n: "obj_get affectedPackages dependency = None" by (simp add: truthyProperty_def)
  have "\<And>k. obj_get (obj_set affectedPackages dependency pkg) k \<noteq> None \<Longrightarrow> obj_get a1 k \<noteq> None"
    using 4 addDependants_loop_grows[of proto packages "obj_set affectedPackages dependency pkg"
        "usedBy pkg" a1]
    by blast
  then have "missing packages a1 \<le> missing packages (obj_set affectedPackages dependency pkg)"
    by (rule missing_mono)
  also have "\<dots> < missing packages affectedPackages"
    using n 4(2) by (simp add: missing_obj_set)
  finally show ?case by simp
next
  case (5 proto packages affectedPackages dependency rest pkg a1 a2)
  then have n: "obj_get affectedPackages dependency = None" by (simp add: truthyProperty_def)
  have "\<And>k. obj_get (obj_set affectedPackages dependency pkg) k \<noteq> None \<Longrightarrow> obj_get a1 k \<noteq> None"
    using 5 addDependants_loop_grows[of proto packages "obj_set affectedPackages dependency pkg"
        "usedBy pkg" a1]
    by blast
  then have 1: "missing packages a1 \<le> missing packages (obj_set affectedPackages dependency pkg)"
    by (rule missing_mono)
  have "\<And>k. obj_get a1 k \<noteq> None \<Longrightarrow> obj_get a2 k \<noteq> None"
    using 5 addDependants_loop_grows[of proto packages a1 "usedByDev pkg" a2]
    by blast
  then have "missing packages a2 \<le> missing packages a1"
    by (rule missing_mono)
  also note 1
  also have "missing packages (obj_set affectedPackages dependency pkg) < missing packages affectedPackages"
    using n 5(2) by (simp add: missing_obj_set)
  finally show ?case by simp
qed


text \<open>
  \<^verbatim>\<open>addDependants(pkg)\<close>, the loop over the changed packages, and the function itself. The
  \<^verbatim>\<open>reduce\<close> stores every changed package under its name. The result is the affected set
  as \<^verbatim>\<open>Object.values\<close> and \<^verbatim>\<open>Object.keys\<close> see it: the properties that it owns.
\<close>

definition addDependants ::
    "Package option \<Rightarrow> Packages \<Rightarrow> Packages \<Rightarrow> Package \<Rightarrow> error + Packages" where
  "addDependants proto packages affectedPackages pkg =
     (case addDependants_loop proto packages affectedPackages (usedBy pkg) of
        Inl e \<Rightarrow> Inl e
      | Inr affected1 \<Rightarrow> addDependants_loop proto packages affected1 (usedByDev pkg))"

fun addDependants_each ::
    "Package option \<Rightarrow> Packages \<Rightarrow> Packages \<Rightarrow> Package list \<Rightarrow> error + Packages" where
  "addDependants_each proto packages affectedPackages [] = Inr affectedPackages"
| "addDependants_each proto packages affectedPackages (pkg # rest) =
     (case addDependants proto packages affectedPackages pkg of
        Inl e \<Rightarrow> Inl e
      | Inr affected1 \<Rightarrow> addDependants_each proto packages affected1 rest)"

definition getPackagesAffectedByChange :: "Packages \<Rightarrow> string list \<Rightarrow> error + Packages" where
  "getPackagesAffectedByChange packages changes =
     (let changedPackages = filter (isChanged changes) (obj_values packages);
          (proto, affectedPackages) = foldl assignByName (None, []) changedPackages
      in addDependants_each proto packages affectedPackages changedPackages)"

subsection \<open>The publish order\<close>

text \<open>
  \<^verbatim>\<open>getPublishOrder\<close> builds the adjacency of every package, its dependants, and hands it
  to the topological sort \<open>topo\<close> of the package \<^verbatim>\<open>batching-toposort\<close>, a parameter here.
\<close>

type_synonym dag = "string list obj"

definition dagOf :: "Packages \<Rightarrow> dag" where
  "dagOf packages =
     foldl (\<lambda>acc curr. obj_set acc (name curr) (usedBy curr @ usedByDev curr))
       [] (obj_values packages)"

definition getPublishOrder ::
    "(dag \<Rightarrow> error + string list list) \<Rightarrow> Packages \<Rightarrow> error + string list list" where
  "getPublishOrder topo packages = topo (dagOf packages)"

text \<open>
  Modelled from the spec: the number of edges into a node, for the topological sort of the
  package \<^verbatim>\<open>batching-toposort\<close>, which is not among the sources. The specification
  describes the sort as layered, after Kahn: the next batch is the set of the nodes with no
  incoming edge left, these nodes are removed with their outgoing edges, and so on until
  the graph is empty; it fails when the graph has a cycle. The nodes are the keys of the
  adjacency.
\<close>

definition indegree :: "dag \<Rightarrow> string \<Rightarrow> nat" where
  "indegree g n = count_list (concat (map snd g)) n"

text \<open>
  Modelled from the spec: the nodes with no incoming edge left, which are the next batch
  of \<^verbatim>\<open>batching-toposort\<close>.
\<close>

definition roots :: "dag \<Rightarrow> string list" where
  "roots g = filter (\<lambda>n. indegree g n = 0) (obj_keys g)"

text \<open>
  Modelled from the spec: the graph of \<^verbatim>\<open>batching-toposort\<close> without the nodes of a batch
  and without their outgoing edges.
\<close>

definition removeNodes :: "string list \<Rightarrow> dag \<Rightarrow> dag" where
  "removeNodes ns g = filter (\<lambda>(k, dependents). k \<notin> set ns) g"

text \<open>Termination: a batch that is not empty removes a node.\<close>

lemma removeNodes_shorter:
  assumes "roots g \<noteq> []"
  shows "length (removeNodes (roots g) g) < length g"
proof -
  from assms obtain n where n: "n \<in> set (roots g)" by (cases "roots g") auto
  then have "n \<in> set (obj_keys g)" by (simp add: roots_def)
  then obtain ds where "(n, ds) \<in> set g" by (auto simp: obj_keys_def)
  with n show ?thesis unfolding removeNodes_def by (intro length_filter_less[of "(n, ds)"]) auto
qed

text \<open>
  Modelled from the spec: the function \<^verbatim>\<open>batching-toposort\<close> exports, which is missing from
  the sources. It returns the batches in order, or fails when a graph that is not empty
  has no node without an incoming edge, which is when the graph has a cycle.
\<close>

function batchingToposort :: "dag \<Rightarrow> error + string list list" where
  "batchingToposort g =
     (if g = [] then Inr []
      else let batch = roots g in
        if batch = [] then Inl CyclesDetected
        else (case batchingToposort (removeNodes batch g) of
                Inl e \<Rightarrow> Inl e
              | Inr batches \<Rightarrow> Inr (batch # batches)))"
  by pat_completeness auto
termination
  by (relation "measure length") (auto simp: removeNodes_shorter)


subsection \<open>Versions\<close>

text \<open>The character classes \<^verbatim>\<open>\d\<close>, \<^verbatim>\<open>[1-9]\<close>, \<^verbatim>\<open>[a-zA-Z-]\<close> and \<^verbatim>\<open>[0-9a-zA-Z-]\<close>.\<close>

definition digitChars :: string where
  "digitChars = ''0123456789''"

definition nonZeroDigitChars :: string where
  "nonZeroDigitChars = ''123456789''"

definition letterOrHyphenChars :: string where
  "letterOrHyphenChars = ''abcdefghijklmnopqrstuvwxyzABCDEFGHIJKLMNOPQRSTUVWXYZ-''"

definition isDigit :: "char \<Rightarrow> bool" where
  "isDigit c \<longleftrightarrow> c \<in> set digitChars"

definition isNonZeroDigit :: "char \<Rightarrow> bool" where
  "isNonZeroDigit c \<longleftrightarrow> c \<in> set nonZeroDigitChars"

definition isLetterOrHyphen :: "char \<Rightarrow> bool" where
  "isLetterOrHyphen c \<longleftrightarrow> c \<in> set letterOrHyphenChars"

definition isIdentChar :: "char \<Rightarrow> bool" where
  "isIdentChar c \<longleftrightarrow> isDigit c \<or> isLetterOrHyphen c"

text \<open>The value of a string of decimal digits, and the decimal numeral of a natural.\<close>

definition digitValue :: "char \<Rightarrow> nat" where
  "digitValue c = of_char c - 48"

definition decimalValue :: "string \<Rightarrow> nat" where
  "decimalValue s = foldl (\<lambda>acc c. 10 * acc + digitValue c) 0 s"

definition digitChar :: "nat \<Rightarrow> char" where
  "digitChar d = char_of (48 + d)"

fun showNat :: "nat \<Rightarrow> string" where
  "showNat n = (if n < 10 then [digitChar n] else showNat (n div 10) @ [digitChar (n mod 10)])"

text \<open>
  The numbers of the script are IEEE 754 doubles. The ones that \<^verbatim>\<open>getNewPrisma2Version\<close>
  and \<^verbatim>\<open>patch\<close> compute are the doubles whose value is a natural, \<^verbatim>\<open>Infinity\<close>, and the
  \<^verbatim>\<open>-Infinity\<close> that \<^verbatim>\<open>Math.max\<close> returns when it has no argument. \<open>Finite n\<close> stands for the
  double of value \<open>n\<close>.

  \<open>roundDouble n\<close> is the double nearest to the natural \<open>n\<close>, with ties to the even
  significand: a natural of at most 53 bits (one below \<^verbatim>\<open>2^53\<close>) is a double; of a longer
  one the significand keeps the 53 leading bits; a result of more than 1024 bits
  (\<^verbatim>\<open>2^1024\<close> or more) is \<^verbatim>\<open>Infinity\<close>.
\<close>

datatype number = Finite nat | Infinity | NegInfinity

fun bitLength :: "nat \<Rightarrow> nat" where
  "bitLength n = (if n = 0 then 0 else Suc (bitLength (n div 2)))"

definition roundDouble :: "nat \<Rightarrow> number" where
  "roundDouble n =
     (if bitLength n \<le> 53 then Finite n
      else let e = bitLength n - 53;
               q = n div 2 ^ e;
               r = n mod 2 ^ e;
               half = 2 ^ (e - 1);
               m = (if r < half then q
                    else if half < r then q + 1
                    else if even q then q else q + 1)
           in if bitLength (m * 2 ^ e) \<le> 1024 then Finite (m * 2 ^ e) else Infinity)"

text \<open>\<^verbatim>\<open>Number(s)\<close> for a string of decimal digits, and \<^verbatim>\<open>x + 1\<close>.\<close>

definition Number :: "string \<Rightarrow> number" where
  "Number s = roundDouble (decimalValue s)"

definition plusOne :: "number \<Rightarrow> number" where
  "plusOne x =
     (case x of
        Finite n \<Rightarrow> roundDouble (n + 1)
      | Infinity \<Rightarrow> Infinity
      | NegInfinity \<Rightarrow> NegInfinity)"

text \<open>
  The string of a number in a template literal (\<^verbatim>\<open>Number::toString\<close>). A double below
  \<^verbatim>\<open>2^53\<close> is written with all its digits. Above, the digits are the shortest decimal
  \<open>s\<close> of \<open>k\<close> digits (at most 17) such that \<^verbatim>\<open>s * 10^(n - k)\<close> rounds to the double, the
  closest to it when there are several; they are followed by zeros when the number has
  at most 21 digits and written with an exponent otherwise.
\<close>

definition distance :: "nat \<Rightarrow> nat \<Rightarrow> nat" where
  "distance a b = (if a \<le> b then b - a else a - b)"

definition candidates :: "nat \<Rightarrow> nat \<Rightarrow> (nat \<times> nat) list" where
  "candidates x k =
     (let d = length (showNat x);
          s = x div 10 ^ (d - k)
      in filter (\<lambda>(s, n). 10 ^ (k - 1) \<le> s \<and> s < 10 ^ k
                   \<and> roundDouble (s * 10 ^ (n - k)) = Finite x)
           ([(s, d), (s + 1, d)] @ (if k = 1 then [(1, d + 1)] else [])))"

definition closer :: "nat \<Rightarrow> nat \<Rightarrow> (nat \<times> nat) \<Rightarrow> (nat \<times> nat) \<Rightarrow> (nat \<times> nat)" where
  "closer x k a b =
     (let da = distance (fst a * 10 ^ (snd a - k)) x;
          db = distance (fst b * 10 ^ (snd b - k)) x
      in if da < db then a else if db < da then b else if even (fst a) then a else b)"

definition shortestDecimal :: "nat \<Rightarrow> nat \<times> nat" where
  "shortestDecimal x =
     (case List.find (\<lambda>k. candidates x k \<noteq> []) [1..<18] of
        None \<Rightarrow> (x, length (showNat x))
      | Some k \<Rightarrow>
          (case candidates x k of
             c # cs \<Rightarrow> foldl (closer x k) c cs
           | [] \<Rightarrow> (x, length (showNat x))))"

definition numberToString :: "number \<Rightarrow> string" where
  "numberToString x =
     (case x of
        Infinity \<Rightarrow> ''Infinity''
      | NegInfinity \<Rightarrow> ''-Infinity''
      | Finite v \<Rightarrow>
          if bitLength v \<le> 53 then showNat v
          else let (s, n) = shortestDecimal v;
                   digits = showNat s;
                   k = length digits
               in if n \<le> 21 then digits @ replicate (n - k) CHR ''0''
                  else (if k = 1 then digits else hd digits # CHR ''.'' # tl digits)
                       @ ''e+'' @ showNat (n - 1))"

text \<open>\<^verbatim>\<open>s.includes(sub)\<close>\<close>

fun stringIncludes :: "string \<Rightarrow> string \<Rightarrow> bool" where
  "stringIncludes [] sub = (sub = [])"
| "stringIncludes (c # cs) sub = (startsWith (c # cs) sub \<or> stringIncludes cs sub)"

text \<open>
  \<^verbatim>\<open>/alpha\.(\d+)/.exec(v)\<close>, as the text of its group: the match starts at the first
  position at which \<^verbatim>\<open>alpha.\<close> is followed by a digit, and the group takes all the digits
  that follow.
\<close>

fun alphaMatch :: "string \<Rightarrow> string option" where
  "alphaMatch [] = None"
| "alphaMatch (c # cs) =
     (if startsWith (c # cs) ''alpha.'' \<and> takeWhile isDigit (drop 6 (c # cs)) \<noteq> []
      then Some (takeWhile isDigit (drop 6 (c # cs)))
      else alphaMatch cs)"

text \<open>\<^verbatim>\<open>Math.max(...xs)\<close>: the greatest of its arguments, \<^verbatim>\<open>-Infinity\<close> when there is none.\<close>

definition maxNumber :: "number \<Rightarrow> number \<Rightarrow> number" where
  "maxNumber a b =
     (case a of
        Infinity \<Rightarrow> Infinity
      | NegInfinity \<Rightarrow> b
      | Finite x \<Rightarrow>
          (case b of
             Infinity \<Rightarrow> Infinity
           | NegInfinity \<Rightarrow> a
           | Finite y \<Rightarrow> Finite (max x y)))"

definition Math_max :: "number list \<Rightarrow> number" where
  "Math_max xs = foldl maxNumber NegInfinity xs"

text \<open>
  The pipeline over the four version strings: the strings that are not blank, the number
  of the match or \<^verbatim>\<open>null\<close>, and the truthy values of those: \<^verbatim>\<open>null\<close> and \<^verbatim>\<open>0\<close> are falsy.
\<close>

definition alphaOf :: "string \<Rightarrow> number option" where
  "alphaOf v = (case alphaMatch v of Some digits \<Rightarrow> Some (Number digits) | None \<Rightarrow> None)"

definition truthyNumber :: "number option \<Rightarrow> bool" where
  "truthyNumber v = (case v of None \<Rightarrow> False | Some n \<Rightarrow> n \<noteq> Finite 0)"

definition alphaVersions :: "string list \<Rightarrow> number list" where
  "alphaVersions versions =
     map the (filter truthyNumber (map alphaOf (filter (\<lambda>v. length (trim v) > 0) versions)))"

definition nextAlpha :: "string list \<Rightarrow> string" where
  "nextAlpha versions =
     (let maxAlpha = Math_max (alphaVersions versions)
      in ''2.0.0-alpha.'' @ numberToString (plusOne maxAlpha))"

text \<open>
  \<^verbatim>\<open>getNewPrisma2Version\<close>. \<open>tag\<close> is the environment variable \<^verbatim>\<open>BUILDKITE_TAG\<close>, which
  counts when it is set and not empty. Otherwise the two local versions are read, then
  the two queries run.
\<close>

definition maxAlphaVersion :: "shell \<Rightarrow> Packages \<Rightarrow> error + string" where
  "maxAlphaVersion sh packages =
     (case obj_get packages ''prisma2'' of
        None \<Rightarrow> Inl TypeError
      | Some prisma2 \<Rightarrow>
     (case obj_get packages ''@prisma/photon'' of
        None \<Rightarrow> Inl TypeError
      | Some photon \<Rightarrow>
     (case awaitAll [runResult sh ''.'' ''npm info prisma2@alpha version'',
                     runResult sh ''.'' ''npm info @prisma/photon@alpha version''] of
        Inl e \<Rightarrow> Inl e
      | Inr remote \<Rightarrow> Inr (nextAlpha ([version prisma2, version photon] @ remote)))))"

definition getNewPrisma2Version :: "string option \<Rightarrow> shell \<Rightarrow> Packages \<Rightarrow> error + string" where
  "getNewPrisma2Version tag sh packages =
     (case tag of
        Some t \<Rightarrow> if t \<noteq> [] then Inr t else maxAlphaVersion sh packages
      | None \<Rightarrow> maxAlphaVersion sh packages)"

text \<open>
  \<^verbatim>\<open>patch\<close>. The regular expression is anchored at both ends, and no string matches it
  in two ways, so the backtracking search is a scan from left to right:
  \<^item> a numeric identifier \<^verbatim>\<open>0|[1-9]\d*\<close> is \<^verbatim>\<open>0\<close>, or a digit that is not zero with all
    the digits that follow;
  \<^item> major, minor and patch are numeric identifiers with a dot after the first two;
  \<^item> what is left is empty, or \<^verbatim>\<open>-\<close> and a prerelease (which has no \<^verbatim>\<open>+\<close>, so it ends at
    the first \<^verbatim>\<open>+\<close> or at the end), then nothing or \<^verbatim>\<open>+\<close> and build metadata;
  \<^item> a prerelease is identifiers separated by dots, each a numeric identifier or made of
    letters, digits and hyphens with one that is not a digit; build metadata is
    non-empty words of letters, digits and hyphens separated by dots.
\<close>

definition numericIdentifier :: "string \<Rightarrow> (string \<times> string) option" where
  "numericIdentifier s =
     (case s of
        [] \<Rightarrow> None
      | c # cs \<Rightarrow>
          if c = CHR ''0'' then Some ([c], cs)
          else if isNonZeroDigit c then Some (c # takeWhile isDigit cs, dropWhile isDigit cs)
          else None)"

definition isNumericIdentifier :: "string \<Rightarrow> bool" where
  "isNumericIdentifier w \<longleftrightarrow>
     w = ''0'' \<or> (w \<noteq> [] \<and> isNonZeroDigit (hd w) \<and> list_all isDigit (tl w))"

definition isPrereleaseIdentifier :: "string \<Rightarrow> bool" where
  "isPrereleaseIdentifier w \<longleftrightarrow>
     isNumericIdentifier w \<or> (list_all isIdentChar w \<and> list_ex isLetterOrHyphen w)"

definition isBuildIdentifier :: "string \<Rightarrow> bool" where
  "isBuildIdentifier w \<longleftrightarrow> w \<noteq> [] \<and> list_all isIdentChar w"

definition isPrerelease :: "string \<Rightarrow> bool" where
  "isPrerelease s \<longleftrightarrow> list_all isPrereleaseIdentifier (splitOn CHR ''.'' s)"

definition isBuildMetadata :: "string \<Rightarrow> bool" where
  "isBuildMetadata s \<longleftrightarrow> list_all isBuildIdentifier (splitOn CHR ''.'' s)"

definition optionalBuild :: "string \<Rightarrow> bool" where
  "optionalBuild s = (case s of [] \<Rightarrow> True | c # cs \<Rightarrow> c = CHR ''+'' \<and> isBuildMetadata cs)"

definition semverSuffix :: "string \<Rightarrow> bool" where
  "semverSuffix s =
     (case s of
        [] \<Rightarrow> True
      | c # cs \<Rightarrow>
          if c = CHR ''-''
          then isPrerelease (takeWhile (\<lambda>x. x \<noteq> CHR ''+'') cs)
               \<and> optionalBuild (dropWhile (\<lambda>x. x \<noteq> CHR ''+'') cs)
          else optionalBuild (c # cs))"

text \<open>The groups \<^verbatim>\<open>major\<close>, \<^verbatim>\<open>minor\<close> and \<^verbatim>\<open>patch\<close> of a match, or \<open>None\<close> for \<^verbatim>\<open>null\<close>.\<close>

definition semverExec :: "string \<Rightarrow> (string \<times> string \<times> string) option" where
  "semverExec v =
     (case numericIdentifier v of
        None \<Rightarrow> None
      | Some (major, r1) \<Rightarrow>
     (case r1 of
        [] \<Rightarrow> None
      | d1 # r2 \<Rightarrow> if d1 \<noteq> CHR ''.'' then None else
     (case numericIdentifier r2 of
        None \<Rightarrow> None
      | Some (minor, r3) \<Rightarrow>
     (case r3 of
        [] \<Rightarrow> None
      | d2 # r4 \<Rightarrow> if d2 \<noteq> CHR ''.'' then None else
     (case numericIdentifier r4 of
        None \<Rightarrow> None
      | Some (patch, r5) \<Rightarrow> if semverSuffix r5 then Some (major, minor, patch) else None)))))"

definition patch :: "string \<Rightarrow> string option" where
  "patch v =
     (case semverExec v of
        Some (major, minor, p) \<Rightarrow>
          Some (major @ ''.'' @ minor @ ''.'' @ numberToString (plusOne (Number p)))
      | None \<Rightarrow> None)"

subsection \<open>Testing and publishing\<close>

text \<open>
  A command that is run for its effect (\<^verbatim>\<open>run\<close>) is recorded in a trace, with the name
  of the package the loop is at, the working directory and the command line. Whether
  it fails is up to the world, which is a function of the trace so far, the directory and
  the command line, to the message of the failure.
\<close>

type_synonym trace = "(string \<times> string \<times> string) list"

type_synonym world = "trace \<Rightarrow> string \<Rightarrow> string \<Rightarrow> string option"

text \<open>The outcome of a part of a run: the trace, and the error that ended it.\<close>

type_synonym outcome = "trace \<times> error option"

definition run :: "world \<Rightarrow> trace \<Rightarrow> string \<Rightarrow> string \<Rightarrow> string \<Rightarrow> outcome" where
  "run w tr pkgName cwd cmd =
     (tr @ [(pkgName, cwd, cmd)],
      case w tr cwd cmd of None \<Rightarrow> None | Some message \<Rightarrow> Some (CommandFailed cmd cwd message))"

text \<open>A value of a manifest's \<^verbatim>\<open>scripts\<close> is truthy when it is there and not empty.\<close>

definition truthyString :: "string option \<Rightarrow> bool" where
  "truthyString v = (case v of None \<Rightarrow> False | Some s \<Rightarrow> s \<noteq> [])"

fun testPackages_loop :: "world \<Rightarrow> Packages \<Rightarrow> trace \<Rightarrow> string list \<Rightarrow> outcome" where
  "testPackages_loop w packages tr [] = (tr, None)"
| "testPackages_loop w packages tr (pkgName # rest) =
     (case obj_get packages pkgName of
        None \<Rightarrow> (tr, Some TypeError)
      | Some pkg \<Rightarrow>
     (case pj_scripts (packageJson pkg) of
        None \<Rightarrow> (tr, Some TypeError)
      | Some scripts \<Rightarrow>
          if truthyString (obj_get scripts ''test'')
          then (case run w tr pkgName (dirname (path pkg)) ''yarn test'' of
                  (tr', Some e) \<Rightarrow> (tr', Some e)
                | (tr', None) \<Rightarrow> testPackages_loop w packages tr' rest)
          else testPackages_loop w packages tr rest))"

definition testPackages :: "world \<Rightarrow> Packages \<Rightarrow> string list list \<Rightarrow> outcome" where
  "testPackages w packages publishOrder =
     (let order = flatten publishOrder in testPackages_loop w packages [] order)"

text \<open>The tag and the new version of a package, and the command that publishes it.\<close>

definition isPrisma2OrPhoton :: "string \<Rightarrow> bool" where
  "isPrisma2OrPhoton pkgName \<longleftrightarrow> pkgName \<in> set [''prisma2'', ''@prisma/photon'']"

definition publishTag :: "string \<Rightarrow> string \<Rightarrow> string" where
  "publishTag prisma2Version pkgName =
     (if stringIncludes prisma2Version ''alpha'' \<and> isPrisma2OrPhoton pkgName
      then ''alpha'' else ''latest'')"

definition newVersion :: "string \<Rightarrow> Package \<Rightarrow> string \<Rightarrow> string option" where
  "newVersion prisma2Version pkg pkgName =
     (if isPrisma2OrPhoton pkgName then Some prisma2Version else patch (version pkg))"

text \<open>A value in a template string: \<^verbatim>\<open>null\<close> is written \<^verbatim>\<open>null\<close>.\<close>

definition templateString :: "string option \<Rightarrow> string" where
  "templateString v = (case v of None \<Rightarrow> ''null'' | Some s \<Rightarrow> s)"

definition publishCommand :: "string \<Rightarrow> Package \<Rightarrow> string \<Rightarrow> string" where
  "publishCommand prisma2Version pkg pkgName =
     ''yarn publish --tag '' @ publishTag prisma2Version pkgName @
     '' --new-version '' @ templateString (newVersion prisma2Version pkg pkgName)"

text \<open>
  The body of the loop over a batch: for a package other than the two, the upgrade,
  once more when it fails; then the publish command.
\<close>

definition publishPackage :: "world \<Rightarrow> string \<Rightarrow> Packages \<Rightarrow> trace \<Rightarrow> string \<Rightarrow> outcome" where
  "publishPackage w prisma2Version packages tr pkgName =
     (case obj_get packages pkgName of
        None \<Rightarrow> (tr, Some TypeError)
      | Some pkg \<Rightarrow>
          let pkgDir = dirname (path pkg);
              upgraded =
                (if \<not> isPrisma2OrPhoton pkgName
                 then (case run w tr pkgName pkgDir ''yarn upgrade --latest --scope @prisma'' of
                         (tr', Some e) \<Rightarrow>
                           run w tr' pkgName pkgDir ''yarn upgrade --latest --scope @prisma''
                       | (tr', None) \<Rightarrow> (tr', None))
                 else (tr, None))
          in (case upgraded of
                (tr', Some e) \<Rightarrow> (tr', Some e)
              | (tr', None) \<Rightarrow>
                  run w tr' pkgName pkgDir (publishCommand prisma2Version pkg pkgName)))"

text \<open>A batch runs one package at a time (\<^verbatim>\<open>concurrency: 1\<close>) and stops at the first error.\<close>

fun publishBatch :: "world \<Rightarrow> string \<Rightarrow> Packages \<Rightarrow> trace \<Rightarrow> string list \<Rightarrow> outcome" where
  "publishBatch w prisma2Version packages tr [] = (tr, None)"
| "publishBatch w prisma2Version packages tr (pkgName # rest) =
     (case publishPackage w prisma2Version packages tr pkgName of
        (tr', Some e) \<Rightarrow> (tr', Some e)
      | (tr', None) \<Rightarrow> publishBatch w prisma2Version packages tr' rest)"

fun publishBatches ::
    "world \<Rightarrow> string \<Rightarrow> Packages \<Rightarrow> trace \<Rightarrow> string list list \<Rightarrow> outcome" where
  "publishBatches w prisma2Version packages tr [] = (tr, None)"
| "publishBatches w prisma2Version packages tr (currentBatch # rest) =
     (case publishBatch w prisma2Version packages tr currentBatch of
        (tr', Some e) \<Rightarrow> (tr', Some e)
      | (tr', None) \<Rightarrow> publishBatches w prisma2Version packages tr' rest)"

definition publishPackages ::
    "string option \<Rightarrow> shell \<Rightarrow> world \<Rightarrow> Packages \<Rightarrow> string list list \<Rightarrow> outcome" where
  "publishPackages tag sh w packages publishOrder =
     (case getNewPrisma2Version tag sh packages of
        Inl e \<Rightarrow> ([], Some e)
      | Inr prisma2Version \<Rightarrow> publishBatches w prisma2Version packages [] publishOrder)"

text \<open>
  \<^verbatim>\<open>publish\<close>, from the raw packages that \<^verbatim>\<open>getPackages\<close> found and the latest commits
  after their sort. \<open>publishFlag\<close> and \<open>allRepos\<close> are the two flags of the command line.
\<close>

definition publish ::
    "(dag \<Rightarrow> error + string list list) \<Rightarrow> shell \<Rightarrow> world \<Rightarrow> (string \<Rightarrow> string \<Rightarrow> string) \<Rightarrow>
     string option \<Rightarrow> bool \<Rightarrow> bool \<Rightarrow> RawPackages \<Rightarrow> Commit list \<Rightarrow> outcome" where
  "publish topo sh w pathJoin tag publishFlag allRepos rawPackages commits =
     (let packages = getPackageDependencies rawPackages;
          circles = getCircularDependencies packages
      in if length circles > 0 then ([], Some (CircularDependencies circles))
         else
     (case getLatestChanges sh pathJoin allRepos commits of
        Inl e \<Rightarrow> ([], Some e)
      | Inr changes \<Rightarrow>
     (case getPackagesAffectedByChange packages changes of
        Inl e \<Rightarrow> ([], Some e)
      | Inr changedPackages \<Rightarrow>
     (case getPublishOrder topo changedPackages of
        Inl e \<Rightarrow> ([], Some e)
      | Inr publishOrder \<Rightarrow>
          let publishOrder = drop 3 publishOrder
          in if publishFlag then publishPackages tag sh w changedPackages publishOrder
             else testPackages w changedPackages publishOrder))))"

subsection \<open>Example workspaces\<close>

text \<open>A manifest at \<open>p\<close> with version \<open>v\<close>, dependencies \<open>ds\<close> and devDependencies \<open>dds\<close>.\<close>

definition manifest :: "string \<Rightarrow> string \<Rightarrow> string list \<Rightarrow> string list \<Rightarrow> RawPackage" where
  "manifest p v ds dds =
     \<lparr> raw_path = p,
       raw_packageJson =
         \<lparr> pj_version = v,
           pj_dependencies = Some (map (\<lambda>d. (d, ''*'')) ds),
           pj_devDependencies = Some (map (\<lambda>d. (d, ''*'')) dds),
           pj_scripts = Some [(''test'', ''jest'')] \<rparr> \<rparr>"

text \<open>A depends on B, and B depends on A as a devDependency.\<close>

definition example_mutual :: RawPackages where
  "example_mutual =
     [(''@prisma/a'', manifest ''photonjs/packages/a/package.json'' ''1.0.0'' [''@prisma/b''] []),
      (''@prisma/b'', manifest ''photonjs/packages/b/package.json'' ''1.0.0'' [] [''@prisma/a''])]"

text \<open>The chain: A depends on B, B depends on C.\<close>

definition example_chain :: RawPackages where
  "example_chain =
     [(''@prisma/a'', manifest ''photonjs/packages/a/package.json'' ''1.0.0'' [''@prisma/b''] []),
      (''@prisma/b'', manifest ''photonjs/packages/b/package.json'' ''1.0.0'' [''@prisma/c''] []),
      (''@prisma/c'', manifest ''photonjs/packages/c/package.json'' ''1.0.0'' [] [])]"

text \<open>The cycle of length three: A depends on B, B on C, C on A.\<close>

definition example_cycle3 :: RawPackages where
  "example_cycle3 =
     [(''@prisma/a'', manifest ''photonjs/packages/a/package.json'' ''1.0.0'' [''@prisma/b''] []),
      (''@prisma/b'', manifest ''photonjs/packages/b/package.json'' ''1.0.0'' [''@prisma/c''] []),
      (''@prisma/c'', manifest ''photonjs/packages/c/package.json'' ''1.0.0'' [''@prisma/a''] [])]"

text \<open>The diamond: A and B depend on C, D depends on A and on B.\<close>

definition example_diamond :: RawPackages where
  "example_diamond =
     [(''@prisma/a'', manifest ''photonjs/packages/a/package.json'' ''1.0.0'' [''@prisma/c''] []),
      (''@prisma/b'', manifest ''photonjs/packages/b/package.json'' ''1.0.0'' [''@prisma/c''] []),
      (''@prisma/c'', manifest ''photonjs/packages/c/package.json'' ''1.0.0'' [] []),
      (''@prisma/d'', manifest ''photonjs/packages/d/package.json'' ''1.0.0''
         [''@prisma/a''] [''@prisma/b''])]"

text \<open>
  A package of the name \<^verbatim>\<open>constructor\<close>, which depends on C. (A manifest may have any name
  that is not empty; \<^verbatim>\<open>getPackages\<close> stores the package under it.)
\<close>

definition example_constructor :: RawPackages where
  "example_constructor =
     [(''@prisma/c'', manifest ''photonjs/packages/c/package.json'' ''1.0.0'' [] []),
      (''constructor'', manifest ''prisma2/cli/constructor/package.json'' ''1.0.0''
         [''@prisma/c''] [])]"

text \<open>One package, which depends on a package of the namespace that is not in the workspace.\<close>

definition example_external :: RawPackages where
  "example_external =
     [(''@prisma/b'', manifest ''photonjs/packages/b/package.json'' ''1.0.0''
         [''@prisma/ext'', ''lodash''] [])]"

text \<open>
  A commit of the repository \<^verbatim>\<open>lift\<close>, a shell whose every command prints a blank line,
  one whose every command prints two paths, and a stand-in for \<^verbatim>\<open>path.join\<close>.
\<close>

definition example_commit :: Commit where
  "example_commit =
     \<lparr> date = 1572739200000, dir = ''lift'', hash = ''4f9a1c2'',
       isMergeCommit = False, parentCommits = [''0b7d3e8''] \<rparr>"

definition example_shell_blank :: shell where
  "example_shell_blank = (\<lambda>cwd cmd. Inr [CHR 0x20, CHR 0x0A])"

definition example_shell_changes :: shell where
  "example_shell_changes = (\<lambda>cwd cmd. Inr (''src/a.ts'' @ [CHR 0x0A] @ ''readme.md''))"

definition example_pathJoin :: "string \<Rightarrow> string \<Rightarrow> string" where
  "example_pathJoin a b = a @ ''/'' @ b"

text \<open>A topological sort that returns no batch, and a world in which no command fails.\<close>

definition example_topo_none :: "dag \<Rightarrow> error + string list list" where
  "example_topo_none g = Inr []"

definition example_world_ok :: world where
  "example_world_ok = (\<lambda>tr cwd cmd. None)"

text \<open>
  A workspace with the two packages that get the release version and one that does not,
  all at their first alpha or patch, and a registry that answers every query with the
  first alpha.
\<close>

definition example_release :: RawPackages where
  "example_release =
     [(''@prisma/get-platform'',
         manifest ''photonjs/packages/get-platform/package.json'' ''0.1.3'' [] []),
      (''@prisma/photon'',
         manifest ''photonjs/packages/photon/package.json'' ''2.0.0-alpha.0''
           [''@prisma/get-platform''] []),
      (''prisma2'',
         manifest ''prisma2/cli/prisma2/package.json'' ''2.0.0-alpha.0'' [''@prisma/photon''] [])]"

definition example_shell_alpha0 :: shell where
  "example_shell_alpha0 = (\<lambda>cwd cmd. Inr ''2.0.0-alpha.0'')"

text \<open>
  The same with two more packages between \<^verbatim>\<open>@prisma/get-platform\<close> and \<^verbatim>\<open>@prisma/photon\<close>,
  so that the two packages that get the release version are in the fourth and the fifth
  batch, and a shell that answers the queries of the registry with the first alpha and
  every other command with a path under the directory of \<^verbatim>\<open>@prisma/get-platform\<close>.
\<close>

definition example_release5 :: RawPackages where
  "example_release5 =
     [(''@prisma/get-platform'',
         manifest ''photonjs/packages/get-platform/package.json'' ''0.1.3'' [] []),
      (''@prisma/fetch-engine'',
         manifest ''photonjs/packages/fetch-engine/package.json'' ''0.2.7''
           [''@prisma/get-platform''] []),
      (''@prisma/engine-core'',
         manifest ''photonjs/packages/engine-core/package.json'' ''0.0.9''
           [''@prisma/fetch-engine''] []),
      (''@prisma/photon'',
         manifest ''photonjs/packages/photon/package.json'' ''2.0.0-alpha.0''
           [''@prisma/engine-core''] []),
      (''prisma2'',
         manifest ''prisma2/cli/prisma2/package.json'' ''2.0.0-alpha.0'' [''@prisma/photon''] [])]"

definition example_shell_release :: shell where
  "example_shell_release =
     (\<lambda>cwd cmd. if startsWith cmd ''npm info'' then Inr ''2.0.0-alpha.0''
                else Inr ''packages/get-platform/readme.md'')"

text \<open>
  A chain of five packages: A depends on B, B on C, C on D, D on E. Its batches, from
  the package without dependencies to the one without dependants, as a topological sort
  returns them; a commit of the repository \<^verbatim>\<open>photonjs\<close>, and a shell whose every command
  prints one path under the directory of E.
\<close>

definition example_chain5 :: RawPackages where
  "example_chain5 =
     [(''@prisma/a'', manifest ''photonjs/packages/a/package.json'' ''1.0.0'' [''@prisma/b''] []),
      (''@prisma/b'', manifest ''photonjs/packages/b/package.json'' ''1.0.0'' [''@prisma/c''] []),
      (''@prisma/c'', manifest ''photonjs/packages/c/package.json'' ''1.0.0'' [''@prisma/d''] []),
      (''@prisma/d'', manifest ''photonjs/packages/d/package.json'' ''1.0.0'' [''@prisma/e''] []),
      (''@prisma/e'', manifest ''photonjs/packages/e/package.json'' ''1.0.0'' [] [])]"

definition example_topo_chain5 :: "dag \<Rightarrow> error + string list list" where
  "example_topo_chain5 g =
     Inr [[''@prisma/e''], [''@prisma/d''], [''@prisma/c''], [''@prisma/b''], [''@prisma/a'']]"

definition example_commit_photonjs :: Commit where
  "example_commit_photonjs =
     \<lparr> date = 1572739200000, dir = ''photonjs'', hash = ''9c1e07a'',
       isMergeCommit = False, parentCommits = [''51d2b6f''] \<rparr>"

definition example_shell_e :: shell where
  "example_shell_e = (\<lambda>cwd cmd. Inr ''packages/e/src/index.ts'')"

text \<open>A package whose version is not a semantic version, and a shell that answers nothing.\<close>

definition example_unversioned :: RawPackages where
  "example_unversioned =
     [(''@prisma/sdk'', manifest ''prisma2/cli/sdk/package.json'' ''next'' [] [])]"

definition example_shell_silent :: shell where
  "example_shell_silent = (\<lambda>cwd cmd. Inr [])"

subsection \<open>Invariants of graph construction\<close>

definition initial_inv :: "RawPackages \<Rightarrow> Packages \<Rightarrow> bool" where
  "initial_inv raw c \<longleftrightarrow> distinct (map fst c) \<and> set (map fst c) = set (map fst raw) \<and>
     (\<forall>(k, p) \<in> set c. \<exists>rp. (k, rp) \<in> set raw \<and> p = newPackage k rp)"

definition same_fields :: "Package \<Rightarrow> Package \<Rightarrow> bool" where
  "same_fields q q0 \<longleftrightarrow> name q = name q0 \<and> path q = path q0 \<and> version q = version q0 \<and>
     uses q = uses q0 \<and> usesDev q = usesDev q0 \<and> packageJson q = packageJson q0"

text \<open>c0 is the cache after the first pass, c a later cache.\<close>

definition link_inv :: "Packages \<Rightarrow> Packages \<Rightarrow> bool" where
  "link_inv c0 c \<longleftrightarrow> map fst c = map fst c0 \<and>
     (\<forall>(k, q) \<in> set c.
        (\<exists>q0. (k, q0) \<in> set c0 \<and> same_fields q q0) \<and>
        (\<forall>P \<in> set (usedBy q). \<exists>p0. (P, p0) \<in> set c0 \<and> k \<in> set (uses p0)) \<and>
        (\<forall>P \<in> set (usedByDev q). \<exists>p0. (P, p0) \<in> set c0 \<and> k \<in> set (usesDev p0)))"

text \<open>What a loop of the second pass does to the keys and to the log.\<close>

definition logs :: "link_state \<Rightarrow> link_state \<Rightarrow> string list \<Rightarrow> bool" where
  "logs st st' ds \<longleftrightarrow> fst ` set (fst st') = fst ` set (fst st) \<and> set (snd st) \<subseteq> set (snd st') \<and>
     (\<forall>d \<in> set ds. d \<notin> fst ` set (fst st) \<longrightarrow> skipping d \<in> set (snd st'))"

subsection \<open>The affected set, specified\<close>

text \<open>
  A well-formed package graph: the keys are distinct, every package is stored under its
  name, and the reverse edges name packages of the graph.
\<close>

definition wf_graph :: "Packages \<Rightarrow> bool" where
  "wf_graph packages \<longleftrightarrow> distinct (obj_keys packages) \<and>
     (\<forall>(k, p) \<in> set packages.
        name p = k \<and> set (usedBy p) \<union> set (usedByDev p) \<subseteq> set (obj_keys packages))"

text \<open>
  No package of the graph has the name of a property of \<^verbatim>\<open>Object.prototype\<close>.
\<close>

definition plain_keys :: "Packages \<Rightarrow> bool" where
  "plain_keys packages \<longleftrightarrow> (\<forall>k \<in> set (obj_keys packages). k \<notin> set objectPrototypeNames)"

text \<open>
  The specification of the affected set: the names of the directly changed packages, and
  closure under the reverse edges.
\<close>

definition directlyChanged :: "Packages \<Rightarrow> string list \<Rightarrow> string set" where
  "directlyChanged packages changes =
     {name p | p. p \<in> set (obj_values packages) \<and>
                  (\<exists>c \<in> set changes. startsWith c (dirname (path p)))}"

definition dependants :: "Packages \<Rightarrow> string \<Rightarrow> string set" where
  "dependants packages n =
     (case obj_get packages n of None \<Rightarrow> {} | Some p \<Rightarrow> set (usedBy p) \<union> set (usedByDev p))"

definition closed_under_usedBy :: "Packages \<Rightarrow> string set \<Rightarrow> bool" where
  "closed_under_usedBy packages S \<longleftrightarrow> (\<forall>n \<in> S. dependants packages n \<subseteq> S)"

text \<open>The invariant and the postcondition of the loops of \<^verbatim>\<open>addDependants\<close>.\<close>

definition sub_obj :: "Packages \<Rightarrow> Packages \<Rightarrow> bool" where
  "sub_obj affected packages \<longleftrightarrow> distinct (obj_keys affected) \<and>
     (\<forall>(k, p) \<in> set affected. obj_get packages k = Some p)"

definition grown :: "Packages \<Rightarrow> Packages \<Rightarrow> string list \<Rightarrow> Packages \<Rightarrow> bool" where
  "grown packages a names a' \<longleftrightarrow>
     sub_obj a' packages \<and>
     set (obj_keys a) \<subseteq> set (obj_keys a') \<and>
     set names \<subseteq> set (obj_keys a') \<and>
     (\<forall>n \<in> set (obj_keys a') - set (obj_keys a). dependants packages n \<subseteq> set (obj_keys a')) \<and>
     (\<forall>S. set (obj_keys a) \<subseteq> S \<and> set names \<subseteq> S \<and> closed_under_usedBy packages S
          \<longrightarrow> set (obj_keys a') \<subseteq> S)"


subsection \<open>The publish order, specified\<close>




subsection \<open>The regular expression of semantic versions\<close>

text \<open>
  Regular expressions without groups, and their languages. The expression of \<^verbatim>\<open>patch\<close>
  is anchored at both ends, so \<^verbatim>\<open>exec\<close> returns a match exactly for the strings of its
  language.
\<close>

datatype regex =
    Lit char
  | Class "char list"
  | Seq regex regex
  | Alt regex regex
  | Star regex
  | Plus regex
  | Opt regex

inductive_set star :: "string set \<Rightarrow> string set" for A :: "string set" where
  star_empty: "[] \<in> star A"
| star_step: "u \<in> A \<Longrightarrow> w \<in> star A \<Longrightarrow> u @ w \<in> star A"

definition conc :: "string set \<Rightarrow> string set \<Rightarrow> string set" where
  "conc A B = {u @ w | u w. u \<in> A \<and> w \<in> B}"

fun lang :: "regex \<Rightarrow> string set" where
  "lang (Lit c) = {[c]}"
| "lang (Class cs) = {[c] | c. c \<in> set cs}"
| "lang (Seq r s) = conc (lang r) (lang s)"
| "lang (Alt r s) = lang r \<union> lang s"
| "lang (Star r) = star (lang r)"
| "lang (Plus r) = conc (lang r) (star (lang r))"
| "lang (Opt r) = insert [] (lang r)"

text \<open>
  The regular expression of \<^verbatim>\<open>patch\<close>, group by group: \<^verbatim>\<open>0|[1-9]\d*\<close> for major, minor
  and patch, the identifiers of a prerelease
  \<^verbatim>\<open>0|[1-9]\d*|\d*[a-zA-Z-][0-9a-zA-Z-]*\<close> separated by dots, and the words
  \<^verbatim>\<open>[0-9a-zA-Z-]+\<close> of the build metadata separated by dots.
\<close>

definition digitRx :: regex where
  "digitRx = Class digitChars"

definition nonZeroDigitRx :: regex where
  "nonZeroDigitRx = Class nonZeroDigitChars"

definition letterOrHyphenRx :: regex where
  "letterOrHyphenRx = Class letterOrHyphenChars"

definition identCharRx :: regex where
  "identCharRx = Class (digitChars @ letterOrHyphenChars)"

definition numericRx :: regex where
  "numericRx = Alt (Lit CHR ''0'') (Seq nonZeroDigitRx (Star digitRx))"

definition prereleaseIdRx :: regex where
  "prereleaseIdRx =
     Alt (Lit CHR ''0'')
       (Alt (Seq nonZeroDigitRx (Star digitRx))
            (Seq (Star digitRx) (Seq letterOrHyphenRx (Star identCharRx))))"

definition prereleaseRx :: regex where
  "prereleaseRx = Seq prereleaseIdRx (Star (Seq (Lit CHR ''.'') prereleaseIdRx))"

definition buildRx :: regex where
  "buildRx = Seq (Plus identCharRx) (Star (Seq (Lit CHR ''.'') (Plus identCharRx)))"

definition suffixRx :: regex where
  "suffixRx = Seq (Opt (Seq (Lit CHR ''-'') prereleaseRx)) (Opt (Seq (Lit CHR ''+'') buildRx))"

definition semverRx :: regex where
  "semverRx =
     Seq numericRx (Seq (Lit CHR ''.'') (Seq numericRx (Seq (Lit CHR ''.'')
       (Seq numericRx suffixRx))))"

text \<open>Words of \<open>A\<close> with the separator between them.\<close>

definition separated :: "char \<Rightarrow> string set \<Rightarrow> string set" where
  "separated sep A = conc A (star (conc {[sep]} A))"

section \<open>Properties of graph construction\<close>

lemma map_of_obj_set: "map_of (obj_set ob k v) = (map_of ob)(k \<mapsto> v)"
  by (induction ob) (auto simp: fun_eq_iff)

lemma keys_obj_set: "fst ` set (obj_set ob k v) = insert k (fst ` set ob)"
  by (simp add: dom_map_of_conv_image_fst[symmetric] map_of_obj_set)

lemma distinct_obj_set: "distinct (map fst ob) \<Longrightarrow> distinct (map fst (obj_set ob k v))"
  by (induction ob) (auto simp: keys_obj_set)

lemma set_obj_set: "(k', v') \<in> set (obj_set ob k v) \<Longrightarrow> (k' = k \<and> v' = v) \<or> (k', v') \<in> set ob"
  by (induction ob) (auto split: if_splits)

lemma keys_obj_modify: "map fst (obj_modify ob k f) = map fst ob"
  by (induction ob) auto

lemma set_obj_modify:
  "(k', v') \<in> set (obj_modify ob k f) \<Longrightarrow>
     (k', v') \<in> set ob \<or> (k' = k \<and> (\<exists>v. (k, v) \<in> set ob \<and> v' = f v))"
  by (induction ob) (auto split: if_splits)

lemma getCircularDependencies_eq:
  "getCircularDependencies packages =
     map circlesOf (filter (\<lambda>pkg. circlesOf pkg \<noteq> []) (obj_values packages))"
proof -
  have "foldl (\<lambda>circularDeps pkg.
              if length (circlesOf pkg) > 0 then circularDeps @ [circlesOf pkg]
              else circularDeps) acc xs = acc @ map circlesOf (filter (\<lambda>pkg. circlesOf pkg \<noteq> []) xs)" for acc xs
    by (induction xs arbitrary: acc) auto
  then show ?thesis by (simp add: getCircularDependencies_def)
qed

lemma circlesOf_empty:
  "circlesOf pkg = [] \<longleftrightarrow> set (uses pkg @ usesDev pkg) \<inter> set (usedBy pkg @ usedByDev pkg) = {}"
  by (auto simp: circlesOf_def intersection_def filter_empty_conv)

lemma initialCache_inv: "initial_inv raw (initialCache raw)"
proof -
  have "initial_inv (pre @ xs) (foldl (\<lambda>acc (nm, pkg). obj_set acc nm (newPackage nm pkg)) c xs)"
    if "initial_inv pre c" for c xs pre
    using that
  proof (induction xs arbitrary: c pre)
    case Nil then show ?case by simp
  next
    case (Cons x xs)
    obtain k rp where x: "x = (k, rp)" by (cases x)
    have "initial_inv (pre @ [x]) (obj_set c k (newPackage k rp))"
      using Cons.prems unfolding initial_inv_def x
      by (auto simp: distinct_obj_set keys_obj_set dest!: set_obj_set)
    from Cons.IH[OF this] show ?case by (simp add: x)
  qed
  from this[of "[]" "[]" raw] show ?thesis by (simp add: initialCache_def initial_inv_def)
qed

lemma link_inv_refl:
  assumes "\<forall>(k, q) \<in> set c0. usedBy q = [] \<and> usedByDev q = []"
  shows "link_inv c0 c0"
  using assms unfolding link_inv_def same_fields_def by fastforce

lemma linkDependency_inv:
  assumes "link_inv c0 (fst st)" "(n, p0) \<in> set c0" "d \<in> set (uses p0)"
  shows "link_inv c0 (fst (linkDependency n st d))"
proof (cases "obj_get (fst st) d")
  case None
  then show ?thesis using assms by (simp add: linkDependency_def)
next
  case (Some a)
  let ?f = "\<lambda>q. q\<lparr>usedBy := usedBy q @ [n]\<rparr>"
  have eq: "fst (linkDependency n st d) = obj_modify (fst st) d ?f"
    using Some by (simp add: linkDependency_def)
  show ?thesis unfolding eq link_inv_def
  proof (intro conjI ballI, goal_cases)
    case 1
    then show ?case using assms(1) by (simp add: keys_obj_modify link_inv_def)
  next
    case (2 x)
    obtain k q where x: "x = (k, q)" by (cases x)
    from 2 x consider "(k, q) \<in> set (fst st)"
      | v where "k = d" "(d, v) \<in> set (fst st)" "q = ?f v"
      using set_obj_modify by fastforce
    then show ?case
    proof cases
      case 1
      then show ?thesis using assms(1) unfolding link_inv_def x by blast
    next
      case 2
      from assms(1) 2(2) have
        a: "\<exists>q0. (d, q0) \<in> set c0 \<and> same_fields v q0"
        and b: "\<forall>P \<in> set (usedBy v). \<exists>p0. (P, p0) \<in> set c0 \<and> d \<in> set (uses p0)"
        and c: "\<forall>P \<in> set (usedByDev v). \<exists>p0. (P, p0) \<in> set c0 \<and> d \<in> set (usesDev p0)"
        unfolding link_inv_def by blast+
      from a obtain q0 where q0: "(d, q0) \<in> set c0" "same_fields v q0"
        by blast
      have "same_fields q q0"
        using q0(2) unfolding 2(3) by (simp add: same_fields_def)
      moreover have "\<forall>P \<in> set (usedBy q). \<exists>p0. (P, p0) \<in> set c0 \<and> d \<in> set (uses p0)"
        using b assms(2,3) unfolding 2(3) by auto
      moreover have "\<forall>P \<in> set (usedByDev q). \<exists>p0. (P, p0) \<in> set c0 \<and> d \<in> set (usesDev p0)"
        using c unfolding 2(3) by auto
      ultimately show ?thesis unfolding x using q0(1) 2(1) by blast
    qed
  qed
qed

lemma linkDevDependency_inv:
  assumes "link_inv c0 (fst st)" "(n, p0) \<in> set c0" "d \<in> set (usesDev p0)"
  shows "link_inv c0 (fst (linkDevDependency n st d))"
proof (cases "obj_get (fst st) d")
  case None
  then show ?thesis using assms by (simp add: linkDevDependency_def)
next
  case (Some a)
  let ?f = "\<lambda>q. q\<lparr>usedByDev := usedByDev q @ [n]\<rparr>"
  have eq: "fst (linkDevDependency n st d) = obj_modify (fst st) d ?f"
    using Some by (simp add: linkDevDependency_def)
  show ?thesis unfolding eq link_inv_def
  proof (intro conjI ballI, goal_cases)
    case 1
    then show ?case using assms(1) by (simp add: keys_obj_modify link_inv_def)
  next
    case (2 x)
    obtain k q where x: "x = (k, q)" by (cases x)
    from 2 x consider "(k, q) \<in> set (fst st)"
      | v where "k = d" "(d, v) \<in> set (fst st)" "q = ?f v"
      using set_obj_modify by fastforce
    then show ?case
    proof cases
      case 1
      then show ?thesis using assms(1) unfolding link_inv_def x by blast
    next
      case 2
      from assms(1) 2(2) have
        a: "\<exists>q0. (d, q0) \<in> set c0 \<and> same_fields v q0"
        and b: "\<forall>P \<in> set (usedBy v). \<exists>p0. (P, p0) \<in> set c0 \<and> d \<in> set (uses p0)"
        and c: "\<forall>P \<in> set (usedByDev v). \<exists>p0. (P, p0) \<in> set c0 \<and> d \<in> set (usesDev p0)"
        unfolding link_inv_def by blast+
      from a obtain q0 where q0: "(d, q0) \<in> set c0" "same_fields v q0"
        by blast
      have "same_fields q q0"
        using q0(2) unfolding 2(3) by (simp add: same_fields_def)
      moreover have "\<forall>P \<in> set (usedBy q). \<exists>p0. (P, p0) \<in> set c0 \<and> d \<in> set (uses p0)"
        using b unfolding 2(3) by auto
      moreover have "\<forall>P \<in> set (usedByDev q). \<exists>p0. (P, p0) \<in> set c0 \<and> d \<in> set (usesDev p0)"
        using c assms(2,3) unfolding 2(3) by auto
      ultimately show ?thesis unfolding x using q0(1) 2(1) by blast
    qed
  qed
qed

lemma foldl_linkDependency_inv:
  assumes "link_inv c0 (fst st)" "(n, p0) \<in> set c0" "set ds \<subseteq> set (uses p0)"
  shows "link_inv c0 (fst (foldl (linkDependency n) st ds))"
  using assms
proof (induction ds arbitrary: st)
  case Nil then show ?case by simp
next
  case (Cons d ds)
  have "link_inv c0 (fst (linkDependency n st d))"
    using Cons.prems by (intro linkDependency_inv) auto
  from Cons.IH[OF this] Cons.prems show ?case by simp
qed

lemma foldl_linkDevDependency_inv:
  assumes "link_inv c0 (fst st)" "(n, p0) \<in> set c0" "set ds \<subseteq> set (usesDev p0)"
  shows "link_inv c0 (fst (foldl (linkDevDependency n) st ds))"
  using assms
proof (induction ds arbitrary: st)
  case Nil then show ?case by simp
next
  case (Cons d ds)
  have "link_inv c0 (fst (linkDevDependency n st d))"
    using Cons.prems by (intro linkDevDependency_inv) auto
  from Cons.IH[OF this] Cons.prems show ?case by simp
qed

lemma linkPackage_inv:
  assumes "link_inv c0 (fst st)" "(name p0, p0) \<in> set c0"
  shows "link_inv c0 (fst (linkPackage st p0))"
  unfolding linkPackage_def
  by (intro foldl_linkDevDependency_inv[OF _ assms(2)] foldl_linkDependency_inv[OF _ assms(2)]
      assms(1) subset_refl)

lemma foldl_linkPackage_inv:
  assumes "link_inv c0 (fst st)" "\<forall>p \<in> set ps. (name p, p) \<in> set c0"
  shows "link_inv c0 (fst (foldl linkPackage st ps))"
  using assms
proof (induction ps arbitrary: st)
  case Nil then show ?case by simp
next
  case (Cons p ps)
  have "link_inv c0 (fst (linkPackage st p))"
    using Cons.prems by (intro linkPackage_inv) auto
  from Cons.IH[OF this] Cons.prems show ?case by simp
qed

lemma initialCache_names:
  "(k, p) \<in> set (initialCache raw) \<Longrightarrow>
     name p = k \<and> usedBy p = [] \<and> usedByDev p = [] \<and>
     uses p = getPrismaDependencies (pj_dependencies (packageJson p)) \<and>
     usesDev p = getPrismaDependencies (pj_devDependencies (packageJson p))"
proof -
  assume "(k, p) \<in> set (initialCache raw)"
  with initialCache_inv[of raw] obtain rp where "p = newPackage k rp"
    unfolding initial_inv_def by blast
  then show ?thesis by (simp add: newPackage_def)
qed

lemma getPackageDependencies_inv:
  "link_inv (initialCache raw) (getPackageDependencies raw)"
  unfolding getPackageDependencies_def getPackageDependencies_run_def Let_def
proof (rule foldl_linkPackage_inv)
  have "\<forall>(k, q) \<in> set (initialCache raw). usedBy q = [] \<and> usedByDev q = []"
    using initialCache_names[of _ _ raw] by blast
  then show "link_inv (initialCache raw) (fst (initialCache raw, []))"
    by (simp add: link_inv_refl)
  show "\<forall>p \<in> set (obj_values (initialCache raw)). (name p, p) \<in> set (initialCache raw)"
    using initialCache_names[of _ _ raw] by (auto simp: obj_values_def)
qed

lemma getPackageDependencies_distinct: "distinct (obj_keys (getPackageDependencies raw))"
  using getPackageDependencies_inv[of raw] initialCache_inv[of raw]
  by (simp add: link_inv_def initial_inv_def obj_keys_def)

lemma getPackageDependencies_keys: "obj_keys (getPackageDependencies raw) = obj_keys (initialCache raw)"
  using getPackageDependencies_inv[of raw] by (simp add: link_inv_def obj_keys_def)

lemma obj_get_Some_iff: "distinct (obj_keys ob) \<Longrightarrow> obj_get ob k = Some v \<longleftrightarrow> (k, v) \<in> set ob"
  by (simp add: obj_get_def obj_keys_def)

lemma obj_get_None_iff: "obj_get ob k = None \<longleftrightarrow> k \<notin> set (obj_keys ob)"
  by (simp add: obj_get_def obj_keys_def map_of_eq_None_iff)

lemma link_inv_keys: "link_inv c0 c \<Longrightarrow> map fst c = map fst c0"
  by (simp add: link_inv_def)

lemma link_inv_same:
  "link_inv c0 c \<Longrightarrow> (k, q) \<in> set c \<Longrightarrow> \<exists>q0. (k, q0) \<in> set c0 \<and> same_fields q q0"
  unfolding link_inv_def by blast

lemma link_inv_usedBy:
  "link_inv c0 c \<Longrightarrow> (k, q) \<in> set c \<Longrightarrow> P \<in> set (usedBy q) \<Longrightarrow>
     \<exists>p0. (P, p0) \<in> set c0 \<and> k \<in> set (uses p0)"
  unfolding link_inv_def by blast

lemma link_inv_usedByDev:
  "link_inv c0 c \<Longrightarrow> (k, q) \<in> set c \<Longrightarrow> P \<in> set (usedByDev q) \<Longrightarrow>
     \<exists>p0. (P, p0) \<in> set c0 \<and> k \<in> set (usesDev p0)"
  unfolding link_inv_def by blast

lemma link_inv_lookup:
  assumes "link_inv c0 c" "distinct (map fst c0)" "(P, p0) \<in> set c0"
  shows "\<exists>p. (P, p) \<in> set c \<and> same_fields p p0"
proof -
  have "P \<in> fst ` set c0" using assms(3) by force
  then have "P \<in> fst ` set c" using link_inv_keys[OF assms(1)] by (metis set_map)
  then obtain p where p: "(P, p) \<in> set c" by fastforce
  from link_inv_same[OF assms(1) p] obtain p0' where p0': "(P, p0') \<in> set c0" "same_fields p p0'"
    by blast
  from assms(2) p0'(1) assms(3) have "p0' = p0" by (rule eq_key_imp_eq_value)
  with p p0'(2) show ?thesis by blast
qed

lemma initialCache_distinct: "distinct (map fst (initialCache raw))"
  using initialCache_inv[of raw] by (simp add: initial_inv_def)

lemma usedBy_uses:
  assumes "obj_get (getPackageDependencies raw) Q = Some q" "P \<in> set (usedBy q)"
  shows "\<exists>p. obj_get (getPackageDependencies raw) P = Some p \<and> Q \<in> set (uses p)"
proof -
  let ?g = "getPackageDependencies raw" and ?c0 = "initialCache raw"
  note d = getPackageDependencies_distinct[of raw]
  have inv: "link_inv ?c0 ?g" by (rule getPackageDependencies_inv)
  from assms(1) have "(Q, q) \<in> set ?g" by (simp add: obj_get_Some_iff[OF d])
  from link_inv_usedBy[OF inv this assms(2)]
  obtain p0 where p0: "(P, p0) \<in> set ?c0" "Q \<in> set (uses p0)" by blast
  from link_inv_lookup[OF inv initialCache_distinct p0(1)]
  obtain p where p: "(P, p) \<in> set ?g" "same_fields p p0" by blast
  then show ?thesis using p0(2) by (auto simp: obj_get_Some_iff[OF d] same_fields_def)
qed

lemma usedByDev_usesDev:
  assumes "obj_get (getPackageDependencies raw) Q = Some q" "P \<in> set (usedByDev q)"
  shows "\<exists>p. obj_get (getPackageDependencies raw) P = Some p \<and> Q \<in> set (usesDev p)"
proof -
  let ?g = "getPackageDependencies raw" and ?c0 = "initialCache raw"
  note d = getPackageDependencies_distinct[of raw]
  have inv: "link_inv ?c0 ?g" by (rule getPackageDependencies_inv)
  from assms(1) have "(Q, q) \<in> set ?g" by (simp add: obj_get_Some_iff[OF d])
  from link_inv_usedByDev[OF inv this assms(2)]
  obtain p0 where p0: "(P, p0) \<in> set ?c0" "Q \<in> set (usesDev p0)" by blast
  from link_inv_lookup[OF inv initialCache_distinct p0(1)]
  obtain p where p: "(P, p) \<in> set ?g" "same_fields p p0" by blast
  then show ?thesis using p0(2) by (auto simp: obj_get_Some_iff[OF d] same_fields_def)
qed

lemma linkDependency_log:
  "fst ` set (fst (linkDependency n st d)) = fst ` set (fst st) \<and>
   set (snd st) \<subseteq> set (snd (linkDependency n st d)) \<and>
   (d \<notin> fst ` set (fst st) \<longrightarrow> skipping d \<in> set (snd (linkDependency n st d)))"
  using keys_obj_modify[of "fst st" d "\<lambda>q. q\<lparr>usedBy := usedBy q @ [n]\<rparr>", THEN arg_cong[where f = set]]
  by (auto simp: linkDependency_def obj_get_def rev_image_eqI
      split: option.splits dest!: map_of_SomeD)

lemma linkDevDependency_log:
  "fst ` set (fst (linkDevDependency n st d)) = fst ` set (fst st) \<and>
   set (snd st) \<subseteq> set (snd (linkDevDependency n st d)) \<and>
   (d \<notin> fst ` set (fst st) \<longrightarrow> skipping d \<in> set (snd (linkDevDependency n st d)))"
  using keys_obj_modify[of "fst st" d "\<lambda>q. q\<lparr>usedByDev := usedByDev q @ [n]\<rparr>", THEN arg_cong[where f = set]]
  by (auto simp: linkDevDependency_def obj_get_def rev_image_eqI
      split: option.splits dest!: map_of_SomeD)

lemma logs_Nil: "logs st st []"
  by (simp add: logs_def)

lemma logs_trans: "logs st st' ds \<Longrightarrow> logs st' st'' es \<Longrightarrow> logs st st'' (ds @ es)"
  unfolding logs_def by auto

lemma foldl_linkDependency_log: "logs st (foldl (linkDependency n) st ds) ds"
proof (induction ds arbitrary: st)
  case Nil show ?case by (simp add: logs_Nil)
next
  case (Cons d ds)
  have "logs st (linkDependency n st d) [d]"
    using linkDependency_log[of n st d] by (simp add: logs_def)
  from logs_trans[OF this Cons.IH] show ?case by simp
qed

lemma foldl_linkDevDependency_log: "logs st (foldl (linkDevDependency n) st ds) ds"
proof (induction ds arbitrary: st)
  case Nil show ?case by (simp add: logs_Nil)
next
  case (Cons d ds)
  have "logs st (linkDevDependency n st d) [d]"
    using linkDevDependency_log[of n st d] by (simp add: logs_def)
  from logs_trans[OF this Cons.IH] show ?case by simp
qed

lemma linkPackage_log: "logs st (linkPackage st p) (uses p @ usesDev p)"
  unfolding linkPackage_def
  by (rule logs_trans[OF foldl_linkDependency_log foldl_linkDevDependency_log])

lemma foldl_linkPackage_log:
  "logs st (foldl linkPackage st ps) (concat (map (\<lambda>p. uses p @ usesDev p) ps))"
proof (induction ps arbitrary: st)
  case Nil show ?case by (simp add: logs_Nil)
next
  case (Cons p ps)
  from logs_trans[OF linkPackage_log Cons.IH] show ?case by simp
qed

lemma skipped_logged:
  assumes "obj_get (getPackageDependencies raw) P = Some p"
    and "d \<in> set (uses p) \<union> set (usesDev p)"
    and "d \<notin> set (obj_keys (getPackageDependencies raw))"
  shows "skipping d \<in> set (snd (getPackageDependencies_run raw))"
proof -
  let ?g = "getPackageDependencies raw" and ?c0 = "initialCache raw"
  note dist = getPackageDependencies_distinct[of raw]
  have inv: "link_inv ?c0 ?g" by (rule getPackageDependencies_inv)
  from assms(1) have "(P, p) \<in> set ?g" by (simp add: obj_get_Some_iff[OF dist])
  from link_inv_same[OF inv this] obtain p0 where p0: "(P, p0) \<in> set ?c0" "same_fields p p0"
    by blast
  have "p0 \<in> set (obj_values ?c0)" using p0(1) by (force simp: obj_values_def)
  moreover have "d \<in> set (uses p0 @ usesDev p0)" using assms(2) p0(2) by (simp add: same_fields_def)
  ultimately have mem: "d \<in> set (concat (map (\<lambda>p. uses p @ usesDev p) (obj_values ?c0)))"
    unfolding set_concat by (metis (no_types, lifting) UN_I image_eqI set_map)
  have notin: "d \<notin> fst ` set (fst (?c0, []::string list))"
    using assms(3) by (metis getPackageDependencies_keys obj_keys_def set_map fst_conv)
  have "logs (?c0, []) (getPackageDependencies_run raw)
      (concat (map (\<lambda>p. uses p @ usesDev p) (obj_values ?c0)))"
    unfolding getPackageDependencies_run_def Let_def by (rule foldl_linkPackage_log)
  then have "\<forall>d \<in> set (concat (map (\<lambda>p. uses p @ usesDev p) (obj_values ?c0))).
      d \<notin> fst ` set (fst (?c0, []::string list)) \<longrightarrow>
      skipping d \<in> set (snd (getPackageDependencies_run raw))"
    unfolding logs_def by (elim conjE)
  from this[rule_format, OF mem notin] show ?thesis .
qed

lemma uses_from_manifest:
  assumes "obj_get (getPackageDependencies raw) P = Some p"
  shows "uses p = getPrismaDependencies (pj_dependencies (packageJson p)) \<and>
         usesDev p = getPrismaDependencies (pj_devDependencies (packageJson p)) \<and>
         name p = P"
proof -
  let ?g = "getPackageDependencies raw" and ?c0 = "initialCache raw"
  note dist = getPackageDependencies_distinct[of raw]
  have inv: "link_inv ?c0 ?g" by (rule getPackageDependencies_inv)
  from assms(1) have "(P, p) \<in> set ?g" by (simp add: obj_get_Some_iff[OF dist])
  from link_inv_same[OF inv this] obtain p0 where p0: "(P, p0) \<in> set ?c0" "same_fields p p0"
    by blast
  from initialCache_names[OF p0(1)] p0(2) show ?thesis by (simp add: same_fields_def)
qed

lemma usedBy_keys:
  assumes "obj_get (getPackageDependencies raw) Q = Some q"
  shows "set (usedBy q) \<union> set (usedByDev q) \<subseteq> set (obj_keys (getPackageDependencies raw))"
proof
  fix P assume "P \<in> set (usedBy q) \<union> set (usedByDev q)"
  then have "\<exists>p. obj_get (getPackageDependencies raw) P = Some p"
    using usedBy_uses[OF assms] usedByDev_usesDev[OF assms] by blast
  then show "P \<in> set (obj_keys (getPackageDependencies raw))"
    using obj_get_None_iff[of "getPackageDependencies raw" P] by auto
qed

lemma getPrismaDependencies_prefix: "d \<in> set (getPrismaDependencies deps) \<Longrightarrow> startsWith d ''@prisma''"
  by (auto simp: getPrismaDependencies_def split: option.splits)

section \<open>Properties of the affected set\<close>

lemma grown_refl: "sub_obj a packages \<Longrightarrow> grown packages a [] a"
  by (simp add: grown_def)

lemma grown_trans:
  assumes "grown packages a ns1 a1" "grown packages a1 ns2 a2"
  shows "grown packages a (ns1 @ ns2) a2"
  unfolding grown_def
proof (intro conjI ballI allI impI)
  show "sub_obj a2 packages" using assms(2) by (simp add: grown_def)
  show "set (obj_keys a) \<subseteq> set (obj_keys a2)" using assms by (auto simp: grown_def)
  show "set (ns1 @ ns2) \<subseteq> set (obj_keys a2)" using assms by (auto simp: grown_def)
next
  fix n assume n: "n \<in> set (obj_keys a2) - set (obj_keys a)"
  show "dependants packages n \<subseteq> set (obj_keys a2)"
  proof (cases "n \<in> set (obj_keys a1)")
    case True
    with n assms(1) have "dependants packages n \<subseteq> set (obj_keys a1)" by (simp add: grown_def)
    moreover have "set (obj_keys a1) \<subseteq> set (obj_keys a2)" using assms(2) by (simp add: grown_def)
    ultimately show ?thesis by blast
  next
    case False
    with n assms(2) show ?thesis by (simp add: grown_def)
  qed
next
  fix S assume S: "set (obj_keys a) \<subseteq> S \<and> set (ns1 @ ns2) \<subseteq> S \<and> closed_under_usedBy packages S"
  then have "set (obj_keys a1) \<subseteq> S" using assms(1) by (simp add: grown_def)
  with S show "set (obj_keys a2) \<subseteq> S" using assms(2) by (simp add: grown_def)
qed

lemma obj_keys_obj_set: "set (obj_keys (obj_set ob k v)) = insert k (set (obj_keys ob))"
  by (simp add: obj_keys_def keys_obj_set)

lemma distinct_obj_keys_obj_set: "distinct (obj_keys ob) \<Longrightarrow> distinct (obj_keys (obj_set ob k v))"
  unfolding obj_keys_def by (rule distinct_obj_set)

lemma sub_obj_obj_set:
  "sub_obj a packages \<Longrightarrow> obj_get packages k = Some p \<Longrightarrow> sub_obj (obj_set a k p) packages"
  unfolding sub_obj_def by (auto simp: distinct_obj_keys_obj_set dest!: set_obj_set)

lemma grown_step:
  assumes "obj_get packages d = Some pkg"
    and "grown packages (obj_set a d pkg) (usedBy pkg @ usedByDev pkg @ rest) a'"
  shows "grown packages a (d # rest) a'"
  unfolding grown_def
proof (intro conjI ballI allI impI)
  let ?b = "obj_set a d pkg"
  note g = assms(2)[unfolded grown_def]
  have kb: "set (obj_keys ?b) = insert d (set (obj_keys a))" by (rule obj_keys_obj_set)
  show "sub_obj a' packages" using g by simp
  show "set (obj_keys a) \<subseteq> set (obj_keys a')" using g kb by auto
  show "set (d # rest) \<subseteq> set (obj_keys a')" using g kb by auto
  have dep: "dependants packages d = set (usedBy pkg) \<union> set (usedByDev pkg)"
    using assms(1) by (simp add: dependants_def)
  {
    fix n assume n: "n \<in> set (obj_keys a') - set (obj_keys a)"
    show "dependants packages n \<subseteq> set (obj_keys a')"
    proof (cases "n = d")
      case True
      then show ?thesis using g dep by auto
    next
      case False
      with n kb have "n \<in> set (obj_keys a') - set (obj_keys ?b)" by auto
      with g show ?thesis by blast
    qed
  }
  {
    fix S assume S: "set (obj_keys a) \<subseteq> S \<and> set (d # rest) \<subseteq> S \<and> closed_under_usedBy packages S"
    then have "dependants packages d \<subseteq> S" by (simp add: closed_under_usedBy_def)
    with S dep kb have "set (obj_keys ?b) \<subseteq> S \<and> set (usedBy pkg @ usedByDev pkg @ rest) \<subseteq> S
        \<and> closed_under_usedBy packages S"
      by auto
    with g show "set (obj_keys a') \<subseteq> S" by blast
  }
qed

lemma grown_skip:
  assumes "obj_get a d \<noteq> None" "grown packages a rest a'"
  shows "grown packages a (d # rest) a'"
proof -
  have "d \<in> set (obj_keys a)"
    using assms(1) by (simp add: obj_get_None_iff)
  with assms(2) show ?thesis unfolding grown_def by auto
qed

lemma wf_graph_lookup:
  assumes "wf_graph packages" "obj_get packages d = Some pkg"
  shows "name pkg = d" "set (usedBy pkg) \<subseteq> set (obj_keys packages)"
    "set (usedByDev pkg) \<subseteq> set (obj_keys packages)"
proof -
  from assms(2) have "(d, pkg) \<in> set packages" by (auto simp: obj_get_def dest: map_of_SomeD)
  with assms(1) show "name pkg = d" "set (usedBy pkg) \<subseteq> set (obj_keys packages)"
    "set (usedByDev pkg) \<subseteq> set (obj_keys packages)"
    unfolding wf_graph_def by auto
qed

lemma truthyProperty_plain:
  assumes "plain_keys packages" "k \<in> set (obj_keys packages)"
  shows "truthyProperty None ob k \<longleftrightarrow> obj_get ob k \<noteq> None"
  using assms by (simp add: truthyProperty_def inheritedTruthy_def plain_keys_def)

lemma addDependants_loop_grown:
  "proto = None \<Longrightarrow> wf_graph packages \<Longrightarrow> plain_keys packages \<Longrightarrow> sub_obj a packages \<Longrightarrow>
   set names \<subseteq> set (obj_keys packages) \<Longrightarrow>
     \<exists>a'. addDependants_loop proto packages a names = Inr a' \<and> grown packages a names a'"
proof (induction proto packages a names rule: addDependants_loop.induct)
  case (1 proto packages affectedPackages)
  then show ?case by (simp add: grown_refl)
next
  case (2 proto packages affectedPackages dependency rest)
  note pr = \<open>proto = None\<close> and wf = \<open>wf_graph packages\<close> and pl = \<open>plain_keys packages\<close>
    and sub = \<open>sub_obj affectedPackages packages\<close>
  have rest: "set rest \<subseteq> set (obj_keys packages)"
    and dep: "dependency \<in> set (obj_keys packages)"
    using 2(9) by simp_all
  have test: "truthyProperty proto affectedPackages dependency
      \<longleftrightarrow> obj_get affectedPackages dependency \<noteq> None"
    unfolding pr using pl dep by (rule truthyProperty_plain)
  show ?case
  proof (cases "truthyProperty proto affectedPackages dependency")
    case True
    from 2(1)[OF True pr wf pl sub rest] obtain a' where
      "addDependants_loop proto packages affectedPackages rest = Inr a'"
      "grown packages affectedPackages rest a'"
      by auto
    with True test show ?thesis by (auto intro: grown_skip)
  next
    case False
    from dep obtain pkg where pkg: "obj_get packages dependency = Some pkg"
      by (cases "obj_get packages dependency") (auto simp: obj_get_None_iff)
    note w = wf_graph_lookup[OF wf pkg]
    have sb: "sub_obj (obj_set affectedPackages dependency pkg) packages"
      using sub pkg by (rule sub_obj_obj_set)
    from 2(2)[OF False pkg pr wf pl sb w(2)] obtain a1 where
      a1: "addDependants_loop proto packages (obj_set affectedPackages dependency pkg) (usedBy pkg)
             = Inr a1"
      and g1: "grown packages (obj_set affectedPackages dependency pkg) (usedBy pkg) a1"
      by auto
    have s1: "sub_obj a1 packages" using g1 by (simp add: grown_def)
    from 2(3)[OF False pkg a1 pr wf pl s1 w(3)] obtain a2 where
      a2: "addDependants_loop proto packages a1 (usedByDev pkg) = Inr a2"
      and g2: "grown packages a1 (usedByDev pkg) a2"
      by auto
    have s2: "sub_obj a2 packages" using g2 by (simp add: grown_def)
    from 2(4)[OF False pkg a1 a2 pr wf pl s2 rest] obtain a3 where
      a3: "addDependants_loop proto packages a2 rest = Inr a3"
      and g3: "grown packages a2 rest a3"
      by auto
    from grown_trans[OF g1 grown_trans[OF g2 g3]]
    have "grown packages affectedPackages (dependency # rest) a3"
      using grown_step[OF pkg] by simp
    with False pkg a1 a2 a3 show ?thesis by simp
  qed
qed

lemma dirname_scan_bounds: "dirname_scan p i m = Some e \<Longrightarrow> 0 < e \<and> e \<le> i"
  by (induction p i m rule: dirname_scan.induct) (auto split: if_splits)

lemma dirname_nonempty: "dirname p \<noteq> []"
proof (cases "dirname_scan p (length p - 1) True")
  case None
  then show ?thesis by (simp add: dirname_def Let_def)
next
  case (Some e)
  from dirname_scan_bounds[OF Some] have "0 < e" "e \<le> length p - 1" by simp_all
  then have "take e p \<noteq> []" by (cases p) auto
  with Some show ?thesis by (simp add: dirname_def Let_def)
qed

lemma isChanged_iff:
  "isChanged changes p \<longleftrightarrow> (\<exists>c \<in> set changes. startsWith c (dirname (path p)))"
proof -
  have ne: "c \<noteq> []" if "startsWith c (dirname (path p))" for c
    using that dirname_nonempty[of "path p"] by (auto simp: startsWith_def)
  show ?thesis
  proof (cases "List.find (\<lambda>c. startsWith c (dirname (path p))) changes")
    case None
    moreover from None have "\<not> (\<exists>c \<in> set changes. startsWith c (dirname (path p)))"
      by (simp add: find_None_iff)
    ultimately show ?thesis by (simp add: isChanged_def)
  next
    case (Some c)
    then have "c \<in> set changes" "startsWith c (dirname (path p))"
      by (auto simp: find_Some_iff)
    with Some ne show ?thesis by (auto simp: isChanged_def)
  qed
qed

lemma addDependants_grown:
  assumes "wf_graph packages" "plain_keys packages" "sub_obj a packages"
    "p \<in> set (obj_values packages)"
  shows "\<exists>a'. addDependants None packages a p = Inr a'
         \<and> grown packages a (usedBy p @ usedByDev p) a'"
proof -
  from assms(4) obtain k where "(k, p) \<in> set packages" by (auto simp: obj_values_def)
  with assms(1) have u: "set (usedBy p) \<subseteq> set (obj_keys packages)"
    and v: "set (usedByDev p) \<subseteq> set (obj_keys packages)"
    unfolding wf_graph_def by auto
  from addDependants_loop_grown[OF refl assms(1,2,3) u] obtain a1 where
    a1: "addDependants_loop None packages a (usedBy p) = Inr a1"
    and g1: "grown packages a (usedBy p) a1"
    by auto
  have "sub_obj a1 packages" using g1 by (simp add: grown_def)
  from addDependants_loop_grown[OF refl assms(1,2) this v] obtain a2 where
    a2: "addDependants_loop None packages a1 (usedByDev p) = Inr a2"
    and g2: "grown packages a1 (usedByDev p) a2"
    by auto
  from a1 a2 grown_trans[OF g1 g2] show ?thesis by (simp add: addDependants_def)
qed

lemma addDependants_each_grown:
  "wf_graph packages \<Longrightarrow> plain_keys packages \<Longrightarrow> sub_obj a packages \<Longrightarrow>
   set ps \<subseteq> set (obj_values packages) \<Longrightarrow>
   \<exists>a'. addDependants_each None packages a ps = Inr a' \<and>
        grown packages a (concat (map (\<lambda>p. usedBy p @ usedByDev p) ps)) a'"
proof (induction ps arbitrary: a)
  case Nil
  then show ?case by (simp add: grown_refl)
next
  case (Cons p ps)
  from Cons.prems have p: "p \<in> set (obj_values packages)" and ps: "set ps \<subseteq> set (obj_values packages)"
    by simp_all
  from addDependants_grown[OF Cons.prems(1,2,3) p] obtain a1 where
    a1: "addDependants None packages a p = Inr a1"
    and g1: "grown packages a (usedBy p @ usedByDev p) a1"
    by auto
  have "sub_obj a1 packages" using g1 by (simp add: grown_def)
  from Cons.IH[OF Cons.prems(1,2) this ps] obtain a2 where
    a2: "addDependants_each None packages a1 ps = Inr a2"
    and g2: "grown packages a1 (concat (map (\<lambda>p. usedBy p @ usedByDev p) ps)) a2"
    by auto
  from a1 a2 grown_trans[OF g1 g2] show ?case by simp
qed

lemma wf_graph_value:
  assumes "wf_graph packages" "p \<in> set (obj_values packages)"
  shows "obj_get packages (name p) = Some p"
proof -
  from assms(2) obtain k where k: "(k, p) \<in> set packages" by (auto simp: obj_values_def)
  with assms(1) have "name p = k" "distinct (obj_keys packages)" unfolding wf_graph_def by auto
  with k show ?thesis by (simp add: obj_get_Some_iff)
qed

lemma reduce_by_name:
  assumes "wf_graph packages" "set ps \<subseteq> set (obj_values packages)" "sub_obj a packages"
  shows "sub_obj (foldl (\<lambda>acc p. obj_set acc (name p) p) a ps) packages \<and>
         set (obj_keys (foldl (\<lambda>acc p. obj_set acc (name p) p) a ps)) = set (obj_keys a) \<union> name ` set ps"
  using assms(2,3)
proof (induction ps arbitrary: a)
  case Nil
  then show ?case by simp
next
  case (Cons p ps)
  have "obj_get packages (name p) = Some p" using Cons.prems(1) by (simp add: wf_graph_value[OF assms(1)])
  with Cons.prems(2) have "sub_obj (obj_set a (name p) p) packages" by (rule sub_obj_obj_set)
  from Cons.IH[OF _ this] Cons.prems(1) show ?case by (auto simp: obj_keys_obj_set)
qed

lemma reduce_assignByName:
  "\<forall>p \<in> set ps. name p \<noteq> ''__proto__'' \<Longrightarrow>
   foldl assignByName (proto, a) ps = (proto, foldl (\<lambda>acc p. obj_set acc (name p) p) a ps)"
  by (induction ps arbitrary: a) (simp_all add: assignByName_def)

lemma plain_keys_name:
  assumes "wf_graph packages" "plain_keys packages" "p \<in> set (obj_values packages)"
  shows "name p \<noteq> ''__proto__''"
proof -
  from assms(3) obtain k where k: "(k, p) \<in> set packages" by (auto simp: obj_values_def)
  with assms(1) have "name p = k" unfolding wf_graph_def by auto
  moreover from k have "k \<in> set (obj_keys packages)" by (force simp: obj_keys_def)
  with assms(2) have "k \<notin> set objectPrototypeNames" by (simp add: plain_keys_def)
  ultimately show ?thesis by (auto simp: objectPrototypeNames_def)
qed

lemma affected_closure:
  assumes "wf_graph packages" and pl: "plain_keys packages"
  shows "\<exists>affected. getPackagesAffectedByChange packages changes = Inr affected
     \<and> sub_obj affected packages
     \<and> directlyChanged packages changes \<subseteq> set (obj_keys affected)
     \<and> closed_under_usedBy packages (set (obj_keys affected))
     \<and> (\<forall>S. directlyChanged packages changes \<subseteq> S \<and> closed_under_usedBy packages S
            \<longrightarrow> set (obj_keys affected) \<subseteq> S)"
proof -
  define cps where "cps = filter (isChanged changes) (obj_values packages)"
  define a0 where "a0 = foldl (\<lambda>acc p. obj_set acc (name p) p) [] cps"
  define names where "names = concat (map (\<lambda>p. usedBy p @ usedByDev p) cps)"
  have cps: "set cps \<subseteq> set (obj_values packages)" by (auto simp: cps_def)
  have "sub_obj [] packages" by (simp add: sub_obj_def obj_keys_def)
  from reduce_by_name[OF assms(1) cps this]
  have s0: "sub_obj a0 packages" and k0: "set (obj_keys a0) = name ` set cps"
    by (simp_all add: a0_def obj_keys_def)
  have D: "directlyChanged packages changes = set (obj_keys a0)"
    unfolding k0 directlyChanged_def cps_def by (auto simp: isChanged_iff)
  from addDependants_each_grown[OF assms(1) pl s0 cps] obtain a' where
    r: "addDependants_each None packages a0 cps = Inr a'" and g: "grown packages a0 names a'"
    by (auto simp: names_def)
  have "\<forall>p \<in> set cps. name p \<noteq> ''__proto__''"
    using cps plain_keys_name[OF assms(1) pl] by blast
  then have red: "foldl assignByName (None, []) cps = (None, a0)"
    unfolding a0_def by (rule reduce_assignByName)
  have g_sub: "sub_obj a' packages"
    and g_k: "set (obj_keys a0) \<subseteq> set (obj_keys a')"
    and g_n: "set names \<subseteq> set (obj_keys a')"
    and g_c: "\<forall>n \<in> set (obj_keys a') - set (obj_keys a0). dependants packages n \<subseteq> set (obj_keys a')"
    and g_l: "\<forall>S. set (obj_keys a0) \<subseteq> S \<and> set names \<subseteq> S \<and> closed_under_usedBy packages S
          \<longrightarrow> set (obj_keys a') \<subseteq> S"
    using g unfolding grown_def by simp_all
  have res: "getPackagesAffectedByChange packages changes = Inr a'"
    using r red by (simp add: getPackagesAffectedByChange_def Let_def cps_def [symmetric])
  have dep0: "dependants packages n \<subseteq> set names" if "n \<in> set (obj_keys a0)" for n
  proof -
    from that k0 obtain p where p: "p \<in> set cps" "n = name p" by auto
    with cps have "obj_get packages n = Some p" by (auto simp: wf_graph_value[OF assms(1)])
    with p(1) show ?thesis by (auto simp: dependants_def names_def)
  qed
  have closed: "closed_under_usedBy packages (set (obj_keys a'))"
    unfolding closed_under_usedBy_def
  proof
    fix n assume n: "n \<in> set (obj_keys a')"
    show "dependants packages n \<subseteq> set (obj_keys a')"
    proof (cases "n \<in> set (obj_keys a0)")
      case True
      from dep0[OF True] g_n show ?thesis by (rule subset_trans)
    next
      case False
      with n have "n \<in> set (obj_keys a') - set (obj_keys a0)" by simp
      with g_c show ?thesis by (rule bspec)
    qed
  qed
  have least: "set (obj_keys a') \<subseteq> S"
    if S: "directlyChanged packages changes \<subseteq> S \<and> closed_under_usedBy packages S" for S
  proof -
    have "set names \<subseteq> S"
    proof
      fix m assume "m \<in> set names"
      then obtain p where p: "p \<in> set cps" "m \<in> set (usedBy p) \<union> set (usedByDev p)"
        by (auto simp: names_def)
      with cps have "obj_get packages (name p) = Some p" by (auto simp: wf_graph_value[OF assms(1)])
      with p(2) have "m \<in> dependants packages (name p)" by (simp add: dependants_def)
      moreover have "name p \<in> S" using p(1) k0 D S by auto
      ultimately show "m \<in> S" using S unfolding closed_under_usedBy_def by blast
    qed
    moreover have "set (obj_keys a0) \<subseteq> S" using S D by simp
    ultimately show ?thesis using g_l S by simp
  qed
  have "directlyChanged packages changes \<subseteq> set (obj_keys a')" using D g_k by simp
  with res g_sub closed least show ?thesis by (intro exI[of _ a'] conjI allI impI)
qed

lemma getPackageDependencies_wf: "wf_graph (getPackageDependencies raw)"
  unfolding wf_graph_def
proof (intro conjI ballI)
  show "distinct (obj_keys (getPackageDependencies raw))" by (rule getPackageDependencies_distinct)
  fix x assume x: "x \<in> set (getPackageDependencies raw)"
  obtain k p where kp: "x = (k, p)" by (cases x)
  with x have g: "obj_get (getPackageDependencies raw) k = Some p"
    by (simp add: obj_get_Some_iff[OF getPackageDependencies_distinct])
  from uses_from_manifest[OF g] usedBy_keys[OF g]
  show "case x of (k, p) \<Rightarrow> name p = k \<and>
      set (usedBy p) \<union> set (usedByDev p) \<subseteq> set (obj_keys (getPackageDependencies raw))"
    by (simp add: kp)
qed

text \<open>
  A reverse edge to a name that is not a key of the graph ends the function with the error
  of reading a property of \<^verbatim>\<open>undefined\<close>; a well-formed graph has no such edge.
\<close>

lemma addDependants_loop_dangling:
  assumes "\<not> truthyProperty proto affected dependency" "obj_get packages dependency = None"
  shows "addDependants_loop proto packages affected (dependency # rest) = Inl TypeError"
  using assms by simp

section \<open>Properties of the change set\<close>

lemma splitOn_nonempty: "splitOn sep s \<noteq> []"
  by (induction s) (auto split: list.splits)

lemma flatten_concat: "flatten arr = concat arr"
proof -
  have "foldl (\<lambda>acc val. acc @ val) a arr = a @ concat arr" for a
    by (induction arr arbitrary: a) auto
  then show ?thesis by (simp add: flatten_def)
qed

lemma getChangesFromCommit_blank:
  assumes "sh (dir commit) (diffTreeCommand commit) = Inr out" "trim out = []"
  shows "getChangesFromCommit sh pathJoin commit = Inl NoChangesDetected"
  using assms by (simp add: getChangesFromCommit_def runResult_def)

lemma getChangesFromCommit_nonempty:
  assumes "getChangesFromCommit sh pathJoin commit = Inr changes"
  shows "changes \<noteq> []"
  using assms splitOn_nonempty
  by (auto simp: getChangesFromCommit_def split: sum.splits if_splits)

lemma awaitAll_Inr:
  "awaitAll rs = Inr vs \<Longrightarrow> rs = map Inr vs"
proof (induction rs arbitrary: vs)
  case Nil then show ?case by simp
next
  case (Cons r rs)
  then show ?case by (cases r) (auto split: sum.splits)
qed

lemma getLatestChanges_nonempty:
  assumes "commits \<noteq> []" "getLatestChanges sh pathJoin allRepos commits = Inr changes"
  shows "changes \<noteq> []"
proof (cases allRepos)
  case True
  with assms(2) obtain css where a: "awaitAll (map (getChangesFromCommit sh pathJoin) commits) = Inr css"
    and c: "changes = flatten css"
    by (auto simp: getLatestChanges_def split: sum.splits)
  from assms(1) obtain c0 rest where commits: "commits = c0 # rest" by (cases commits) auto
  from awaitAll_Inr[OF a] commits obtain cs0 css' where
    "css = cs0 # css'" "getChangesFromCommit sh pathJoin c0 = Inr cs0"
    by (cases css) auto
  with getChangesFromCommit_nonempty[of sh pathJoin c0 cs0] c show ?thesis
    by (simp add: flatten_concat)
next
  case False
  with assms show ?thesis
    by (auto simp: getLatestChanges_def split: list.splits dest: getChangesFromCommit_nonempty)
qed

lemma awaitAll_NoChanges:
  assumes "\<forall>r \<in> set rs. r = Inl NoChangesDetected \<or> (\<exists>v. r = Inr v)"
    and "Inl NoChangesDetected \<in> set rs"
  shows "awaitAll rs = Inl NoChangesDetected"
  using assms
proof (induction rs)
  case Nil then show ?case by simp
next
  case (Cons r rs)
  show ?case
  proof (cases r)
    case (Inl e)
    with Cons.prems(1) show ?thesis by auto
  next
    case (Inr v)
    with Cons.prems have "awaitAll rs = Inl NoChangesDetected" by (intro Cons.IH) auto
    with Inr show ?thesis by simp
  qed
qed

lemma getChangesFromCommit_cases:
  assumes "sh (dir commit) (diffTreeCommand commit) = Inr out"
  shows "getChangesFromCommit sh pathJoin commit = Inl NoChangesDetected \<and> trim out = []
       \<or> (\<exists>v. getChangesFromCommit sh pathJoin commit = Inr v) \<and> trim out \<noteq> []"
  using assms by (simp add: getChangesFromCommit_def runResult_def)

lemma getLatestChanges_allRepos_blank:
  assumes "\<forall>c \<in> set commits. \<exists>out. sh (dir c) (diffTreeCommand c) = Inr out"
    and "\<exists>c \<in> set commits. \<exists>out. sh (dir c) (diffTreeCommand c) = Inr out \<and> trim out = []"
  shows "getLatestChanges sh pathJoin True commits = Inl NoChangesDetected"
proof -
  let ?rs = "map (getChangesFromCommit sh pathJoin) commits"
  have "\<forall>r \<in> set ?rs. r = Inl NoChangesDetected \<or> (\<exists>v. r = Inr v)"
    using assms(1) getChangesFromCommit_cases[of sh _ _ pathJoin] by fastforce
  moreover have "Inl NoChangesDetected \<in> set ?rs"
    using assms(2) getChangesFromCommit_blank[of sh _ _ pathJoin] by force
  ultimately have "awaitAll ?rs = Inl NoChangesDetected" by (rule awaitAll_NoChanges)
  then show ?thesis by (simp add: getLatestChanges_def)
qed

lemma publish_aborts:
  assumes "getCircularDependencies (getPackageDependencies rawPackages) = []"
    and "getLatestChanges sh pathJoin allRepos commits = Inl e"
  shows "publish topo sh w pathJoin tag publishFlag allRepos rawPackages commits = ([], Some e)"
  using assms by (simp add: publish_def)

section \<open>Properties of the version functions\<close>

lemma bitLength_le: "bitLength n \<le> k \<longleftrightarrow> n < 2 ^ k"
proof (induction k arbitrary: n)
  case 0
  show ?case by simp
next
  case (Suc k)
  show ?case
  proof (cases "n = 0")
    case True
    then show ?thesis by simp
  next
    case False
    then have "bitLength n \<le> Suc k \<longleftrightarrow> bitLength (n div 2) \<le> k"
      by (subst bitLength.simps) simp
    also have "\<dots> \<longleftrightarrow> n div 2 < 2 ^ k" by (rule Suc.IH)
    also have "\<dots> \<longleftrightarrow> n < 2 ^ Suc k" by auto
    finally show ?thesis .
  qed
qed

lemma roundDouble_exact: "n < 2 ^ 53 \<Longrightarrow> roundDouble n = Finite n"
  unfolding roundDouble_def bitLength_le by simp

lemma Number_exact: "decimalValue s < 2 ^ 53 \<Longrightarrow> Number s = Finite (decimalValue s)"
  by (simp add: Number_def roundDouble_exact)

lemma plusOne_exact: "n + 1 < 2 ^ 53 \<Longrightarrow> plusOne (Finite n) = Finite (n + 1)"
  by (simp add: plusOne_def roundDouble_exact)

lemma numberToString_exact: "n < 2 ^ 53 \<Longrightarrow> numberToString (Finite n) = showNat n"
  unfolding numberToString_def bitLength_le by simp

lemma digitChar_digits:
  "digitChar 0 = CHR ''0''" "digitChar 1 = CHR ''1''" "digitChar (Suc 0) = CHR ''1''"
  "digitChar 2 = CHR ''2''" "digitChar 3 = CHR ''3''" "digitChar 4 = CHR ''4''"
  "digitChar 5 = CHR ''5''" "digitChar 6 = CHR ''6''" "digitChar 7 = CHR ''7''"
  "digitChar 8 = CHR ''8''" "digitChar 9 = CHR ''9''"
  by code_simp+

lemma bitLength_53: "bitLength 9007199254740992 = 54" "bitLength 9007199254740993 = 54"
  by simp_all

lemma roundDouble_53:
  "roundDouble 9007199254740992 = Finite 9007199254740992"
  "roundDouble 9007199254740993 = Finite 9007199254740992"
  by (simp_all add: roundDouble_def Let_def bitLength_53 del: bitLength.simps)

lemma showNat_53: "showNat 9007199254740992 = ''9007199254740992''"
  by (simp add: digitChar_digits)

lemma upt_18: "[1..<18] = [1, 2, 3, 4, 5, 6, 7, 8, 9, 10, 11, 12, 13, 14, 15, 16, 17::nat]"
  by code_simp

lemma candidates_53:
  "candidates 9007199254740992 (Suc 0) = []"
  "candidates 9007199254740992 2 = []"
  "candidates 9007199254740992 3 = []"
  "candidates 9007199254740992 4 = []"
  "candidates 9007199254740992 5 = []"
  "candidates 9007199254740992 6 = []"
  "candidates 9007199254740992 7 = []"
  "candidates 9007199254740992 8 = []"
  "candidates 9007199254740992 9 = []"
  "candidates 9007199254740992 10 = []"
  "candidates 9007199254740992 11 = []"
  "candidates 9007199254740992 12 = []"
  "candidates 9007199254740992 13 = []"
  "candidates 9007199254740992 14 = []"
  "candidates 9007199254740992 15 = []"
  "candidates 9007199254740992 16 = [(9007199254740992, 16), (9007199254740993, 16)]"
  unfolding candidates_def showNat_53 by (simp_all add: roundDouble_def Let_def)

lemma shortestDecimal_53: "shortestDecimal 9007199254740992 = (9007199254740992, 16)"
  unfolding shortestDecimal_def upt_18
  by (simp add: candidates_53 closer_def distance_def del: showNat.simps)

lemma numberToString_53: "numberToString (Finite 9007199254740992) = ''9007199254740992''"
  by (simp add: numberToString_def bitLength_53 shortestDecimal_53 showNat_53
      del: bitLength.simps showNat.simps)

lemma roundDouble_le: "n \<le> 2 ^ 53 \<Longrightarrow> roundDouble n = Finite n"
  using roundDouble_exact [of n] roundDouble_53(1) by (cases "n = 2 ^ 53") simp_all

lemma numberToString_le: "n \<le> 2 ^ 53 \<Longrightarrow> numberToString (Finite n) = showNat n"
  using numberToString_exact [of n] numberToString_53 showNat_53
  by (cases "n = 2 ^ 53") (simp_all del: showNat.simps)

lemma increment_exact:
  assumes "decimalValue p < 2 ^ 53"
  shows "numberToString (plusOne (Number p)) = showNat (decimalValue p + 1)"
proof -
  from assms have "Number p = Finite (decimalValue p)" by (rule Number_exact)
  moreover from assms have b: "decimalValue p + 1 \<le> 2 ^ 53" by simp
  then have "plusOne (Finite (decimalValue p)) = Finite (decimalValue p + 1)"
    unfolding plusOne_def by (simp add: roundDouble_le)
  moreover from b have "numberToString (Finite (decimalValue p + 1)) = showNat (decimalValue p + 1)"
    by (rule numberToString_le)
  ultimately show ?thesis by simp
qed

lemma alphaVersions_positive: "n \<in> set (alphaVersions versions) \<Longrightarrow> n \<noteq> Finite 0"
  by (auto simp: alphaVersions_def truthyNumber_def split: option.splits)

lemma alphaVersions_empty:
  assumes "\<forall>v \<in> set versions. alphaOf v = None \<or> alphaOf v = Some (Finite 0)"
  shows "alphaVersions versions = []"
proof -
  have "filter truthyNumber (map alphaOf vs) = []" if "set vs \<subseteq> set versions" for vs
    using that assms by (induction vs) (auto simp: truthyNumber_def)
  then show ?thesis by (simp add: alphaVersions_def)
qed

lemma nextAlpha_empty:
  "alphaVersions versions = [] \<Longrightarrow> nextAlpha versions = ''2.0.0-alpha.-Infinity''"
  by (simp add: nextAlpha_def Math_max_def plusOne_def numberToString_def)

lemma foldl_maxNumber:
  "foldl maxNumber (Finite a) (map Finite ns) = Finite (Max (set (a # ns)))"
proof (induction ns arbitrary: a)
  case Nil
  show ?case by simp
next
  case (Cons n ns)
  have "foldl maxNumber (Finite a) (map Finite (n # ns))
      = foldl maxNumber (Finite (max a n)) (map Finite ns)"
    by (simp add: maxNumber_def)
  also have "\<dots> = Finite (Max (set (max a n # ns)))" by (rule Cons.IH)
  also have "Max (set (max a n # ns)) = Max (set (a # n # ns))"
    by (cases "ns = []") (simp_all add: max.assoc)
  finally show ?case .
qed

lemma Math_max_Finite: "ns \<noteq> [] \<Longrightarrow> Math_max (map Finite ns) = Finite (Max (set ns))"
  using foldl_maxNumber by (cases ns) (simp_all add: Math_max_def maxNumber_def)

lemma nextAlpha_positive:
  assumes "alphaVersions versions = map Finite ns" and "ns \<noteq> []"
    and "\<forall>n \<in> set ns. n < 2 ^ 53"
  shows "nextAlpha versions = ''2.0.0-alpha.'' @ showNat (Max (set ns) + 1)"
proof -
  have "Max (set ns) \<in> set ns" using assms(2) by (intro Max_in) simp_all
  with assms(3) have b: "Max (set ns) < 2 ^ 53" by blast
  then have c: "Max (set ns) + 1 \<le> 2 ^ 53" by simp
  then have "plusOne (Finite (Max (set ns))) = Finite (Max (set ns) + 1)"
    unfolding plusOne_def by (simp add: roundDouble_le)
  moreover from c have "numberToString (Finite (Max (set ns) + 1)) = showNat (Max (set ns) + 1)"
    by (rule numberToString_le)
  ultimately show ?thesis
    unfolding nextAlpha_def assms(1) Math_max_Finite [OF assms(2)] Let_def by simp
qed

lemma getNewPrisma2Version_no_override:
  assumes "tag = None \<or> tag = Some []"
    and "obj_get packages ''prisma2'' = Some prisma2Pkg"
    and "obj_get packages ''@prisma/photon'' = Some photonPkg"
    and "sh ''.'' ''npm info prisma2@alpha version'' = Inr remotePrisma2Version"
    and "sh ''.'' ''npm info @prisma/photon@alpha version'' = Inr remotePhotonVersion"
  shows "getNewPrisma2Version tag sh packages =
     Inr (nextAlpha [version prisma2Pkg, version photonPkg, remotePrisma2Version, remotePhotonVersion])"
  using assms by (auto simp: getNewPrisma2Version_def maxAlphaVersion_def runResult_def)

section \<open>Properties of the version parser\<close>

lemma in_conc: "s \<in> conc A B \<longleftrightarrow> (\<exists>u w. s = u @ w \<and> u \<in> A \<and> w \<in> B)"
  by (auto simp: conc_def)

lemma star_Class: "star {[c] | c. c \<in> set cs} = {w. list_all (\<lambda>c. c \<in> set cs) w}"
proof (intro set_eqI iffI)
  fix w assume "w \<in> star {[c] | c. c \<in> set cs}"
  then show "w \<in> {w. list_all (\<lambda>c. c \<in> set cs) w}" by induction auto
next
  fix w assume "w \<in> {w. list_all (\<lambda>c. c \<in> set cs) w}"
  then have "list_all (\<lambda>c. c \<in> set cs) w" by simp
  then show "w \<in> star {[c] | c. c \<in> set cs}"
  proof (induction w)
    case Nil show ?case by (rule star_empty)
  next
    case (Cons c w)
    then have "[c] \<in> {[c] | c. c \<in> set cs}" "w \<in> star {[c] | c. c \<in> set cs}" by auto
    from star_step[OF this] show ?case by simp
  qed
qed

lemma lang_digits: "lang (Star digitRx) = {w. list_all isDigit w}"
proof -
  have "isDigit = (\<lambda>c. c \<in> set digitChars)" by (simp add: fun_eq_iff isDigit_def)
  then show ?thesis using star_Class[of digitChars] by (simp add: digitRx_def)
qed

lemma isIdentChar_set: "isIdentChar = (\<lambda>c. c \<in> set (digitChars @ letterOrHyphenChars))"
  by (simp add: fun_eq_iff isIdentChar_def isDigit_def isLetterOrHyphen_def)

lemma lang_identChars: "lang (Star identCharRx) = {w. list_all isIdentChar w}"
  unfolding isIdentChar_set using star_Class[of "digitChars @ letterOrHyphenChars"]
  by (simp only: identCharRx_def lang.simps)

lemma lang_nonZeroDigit: "lang nonZeroDigitRx = {[c] | c. isNonZeroDigit c}"
  by (simp add: nonZeroDigitRx_def isNonZeroDigit_def)

lemma lang_letterOrHyphen: "lang letterOrHyphenRx = {[c] | c. isLetterOrHyphen c}"
  by (simp add: letterOrHyphenRx_def isLetterOrHyphen_def)

lemma lang_identChar: "lang identCharRx = {[c] | c. isIdentChar c}"
  unfolding isIdentChar_set by (simp only: identCharRx_def lang.simps)

lemma lang_nonZero_digits:
  "lang (Seq nonZeroDigitRx (Star digitRx))
     = {w. w \<noteq> [] \<and> isNonZeroDigit (hd w) \<and> list_all isDigit (tl w)}"
proof (intro set_eqI iffI)
  fix w assume "w \<in> lang (Seq nonZeroDigitRx (Star digitRx))"
  then obtain c ds where "w = [c] @ ds" "isNonZeroDigit c" "list_all isDigit ds"
    unfolding lang.simps(3) lang_digits lang_nonZeroDigit in_conc by blast
  then show "w \<in> {w. w \<noteq> [] \<and> isNonZeroDigit (hd w) \<and> list_all isDigit (tl w)}" by simp
next
  fix w assume "w \<in> {w. w \<noteq> [] \<and> isNonZeroDigit (hd w) \<and> list_all isDigit (tl w)}"
  then obtain c ds where w: "w = [c] @ ds" and "isNonZeroDigit c" "list_all isDigit ds"
    by (cases w) auto
  then have "[c] \<in> lang nonZeroDigitRx" "ds \<in> lang (Star digitRx)"
    unfolding lang_digits lang_nonZeroDigit by auto
  then show "w \<in> lang (Seq nonZeroDigitRx (Star digitRx))"
    unfolding lang.simps(3) in_conc w by blast
qed

lemma lang_numeric: "lang numericRx = {w. isNumericIdentifier w}"
  unfolding numericRx_def lang.simps(4) lang_nonZero_digits
  by (auto simp: isNumericIdentifier_def)

subsection \<open>Characters\<close>

lemma dot_not_digit: "\<not> isDigit CHR ''.''"
  by (simp add: isDigit_def digitChars_def)

lemma dot_not_ident: "\<not> isIdentChar CHR ''.''"
  by (simp add: isIdentChar_def isDigit_def digitChars_def isLetterOrHyphen_def letterOrHyphenChars_def)

lemma plus_not_ident: "\<not> isIdentChar CHR ''+''"
  by (simp add: isIdentChar_def isDigit_def digitChars_def isLetterOrHyphen_def letterOrHyphenChars_def)

lemma plus_not_digit: "\<not> isDigit CHR ''+''"
  by (simp add: isDigit_def digitChars_def)

lemma hyphen_not_digit: "\<not> isDigit CHR ''-''"
  by (simp add: isDigit_def digitChars_def)

lemma zero_digit: "isDigit CHR ''0''"
  by (simp add: isDigit_def digitChars_def)

lemma zero_not_nonZero: "\<not> isNonZeroDigit CHR ''0''"
  by (simp add: isNonZeroDigit_def nonZeroDigitChars_def)

lemma nonZero_digit: "isNonZeroDigit c \<Longrightarrow> isDigit c"
  by (auto simp: isNonZeroDigit_def nonZeroDigitChars_def isDigit_def digitChars_def)

lemma digit_ident: "isDigit c \<Longrightarrow> isIdentChar c"
  by (simp add: isIdentChar_def)

subsection \<open>Words separated by a character\<close>

lemma splitOn_Cons: "\<exists>w ws. splitOn sep s = w # ws"
  by (induction s) (auto split: list.splits)

lemma joinWith_splitOn: "joinWith [sep] (splitOn sep s) = s"
proof (induction s)
  case Nil
  show ?case by simp
next
  case (Cons c cs)
  obtain w ws where s: "splitOn sep cs = w # ws" using splitOn_Cons by blast
  show ?case
  proof (cases "c = sep")
    case True
    with Cons s show ?thesis by simp
  next
    case False
    with Cons s show ?thesis by (cases ws) auto
  qed
qed

lemma splitOn_word: "sep \<notin> set w \<Longrightarrow> splitOn sep w = [w]"
  by (induction w) auto

lemma splitOn_word_sep: "sep \<notin> set w \<Longrightarrow> splitOn sep (w @ sep # s) = w # splitOn sep s"
  by (induction w) auto

lemma splitOn_joinWith:
  "ws \<noteq> [] \<Longrightarrow> \<forall>w \<in> set ws. sep \<notin> set w \<Longrightarrow> splitOn sep (joinWith [sep] ws) = ws"
proof (induction "[sep]" ws rule: joinWith.induct)
  case 1
  then show ?case by simp
next
  case (2 x)
  then show ?case by (simp add: splitOn_word)
next
  case (3 x y ys)
  then show ?case by (simp add: splitOn_word_sep)
qed

lemma concI: "u \<in> A \<Longrightarrow> w \<in> B \<Longrightarrow> u @ w \<in> conc A B"
  by (auto simp: conc_def)

lemma separatedI: "u \<in> A \<Longrightarrow> t \<in> star (conc {[sep]} A) \<Longrightarrow> u @ t \<in> separated sep A"
  unfolding separated_def by (rule concI)

lemma separatedE:
  assumes "s \<in> separated sep A"
  obtains u t where "s = u @ t" "u \<in> A" "t \<in> star (conc {[sep]} A)"
  using assms unfolding separated_def conc_def by fast

lemma sep_step: "u \<in> A \<Longrightarrow> t \<in> star (conc {[sep]} A) \<Longrightarrow> sep # u @ t \<in> star (conc {[sep]} A)"
proof -
  assume u: "u \<in> A" and t: "t \<in> star (conc {[sep]} A)"
  have "[sep] \<in> {[sep]}" by simp
  from concI[OF this u] have "[sep] @ u \<in> conc {[sep]} A" .
  from star_step[OF this t] show ?thesis by simp
qed

lemma joinWith_separated:
  "ws \<noteq> [] \<Longrightarrow> \<forall>w \<in> set ws. w \<in> A \<Longrightarrow> joinWith [sep] ws \<in> separated sep A"
proof (induction "[sep]" ws rule: joinWith.induct)
  case 1
  then show ?case by simp
next
  case (2 x)
  then have "x \<in> A" by simp
  from separatedI[OF this star_empty] show ?case by simp
next
  case (3 x y ys)
  have "joinWith [sep] (y # ys) \<in> separated sep A"
    using 3 by simp
  then obtain u t where ut: "joinWith [sep] (y # ys) = u @ t" "u \<in> A" "t \<in> star (conc {[sep]} A)"
    by (rule separatedE)
  have x: "x \<in> A" using 3(3) by simp
  from separatedI[OF x sep_step[OF ut(2,3)]] ut(1) show ?case by simp
qed

lemma star_separated:
  "t \<in> star (conc {[sep]} A) \<Longrightarrow>
     \<exists>ws. (\<forall>w \<in> set ws. w \<in> A) \<and> (\<forall>u. u @ t = joinWith [sep] (u # ws))"
proof (induction rule: star.induct)
  case star_empty
  have "(\<forall>w \<in> set []. w \<in> A) \<and> (\<forall>u. u @ [] = joinWith [sep] (u # []))" by simp
  then show ?case by blast
next
  case (star_step v t)
  then obtain ws where ws: "\<forall>w \<in> set ws. w \<in> A" "\<And>u. u @ t = joinWith [sep] (u # ws)"
    by blast
  from star_step(1) obtain u' where u': "v = sep # u'" "u' \<in> A"
    unfolding conc_def by fastforce
  have "u @ v @ t = joinWith [sep] (u # u' # ws)" for u
    using ws(2)[of u'] by (simp add: u'(1))
  with ws(1) u'(2) have "(\<forall>w \<in> set (u' # ws). w \<in> A)
      \<and> (\<forall>u. u @ v @ t = joinWith [sep] (u # u' # ws))"
    by simp
  then show ?case by blast
qed

lemma separated_iff:
  assumes "\<And>w. w \<in> A \<Longrightarrow> sep \<notin> set w"
  shows "s \<in> separated sep A \<longleftrightarrow> list_all (\<lambda>w. w \<in> A) (splitOn sep s)"
proof
  assume "s \<in> separated sep A"
  then obtain u t where ut: "s = u @ t" "u \<in> A" "t \<in> star (conc {[sep]} A)"
    by (rule separatedE)
  from star_separated[OF ut(3)] obtain ws where
    ws: "\<forall>w \<in> set ws. w \<in> A" "u @ t = joinWith [sep] (u # ws)"
    by blast
  have "\<forall>w \<in> set (u # ws). sep \<notin> set w" using ws(1) ut(2) assms by auto
  then have "splitOn sep (joinWith [sep] (u # ws)) = u # ws"
    by (intro splitOn_joinWith) simp_all
  with ws ut show "list_all (\<lambda>w. w \<in> A) (splitOn sep s)" by (simp add: list_all_iff)
next
  assume a: "list_all (\<lambda>w. w \<in> A) (splitOn sep s)"
  obtain w ws where "splitOn sep s = w # ws" using splitOn_Cons by blast
  then have "splitOn sep s \<noteq> []" by simp
  from joinWith_separated[OF this, of A] a have "joinWith [sep] (splitOn sep s) \<in> separated sep A"
    by (simp add: list_all_iff)
  then show "s \<in> separated sep A" by (simp add: joinWith_splitOn)
qed

lemma lang_letter_idents:
  "lang (Seq (Star digitRx) (Seq letterOrHyphenRx (Star identCharRx)))
     = {w. list_all isIdentChar w \<and> list_ex isLetterOrHyphen w}"
proof (intro set_eqI iffI)
  fix w assume "w \<in> lang (Seq (Star digitRx) (Seq letterOrHyphenRx (Star identCharRx)))"
  then obtain ds l as where w: "w = ds @ [l] @ as" and ds: "list_all isDigit ds"
    and l: "isLetterOrHyphen l" and as: "list_all isIdentChar as"
    unfolding lang.simps(3) lang_digits lang_identChars lang_letterOrHyphen in_conc by blast
  from ds have "list_all isIdentChar ds" by (simp add: list_all_iff digit_ident)
  with l as show "w \<in> {w. list_all isIdentChar w \<and> list_ex isLetterOrHyphen w}"
    by (simp add: w isIdentChar_def)
next
  fix w assume "w \<in> {w. list_all isIdentChar w \<and> list_ex isLetterOrHyphen w}"
  then have ident: "list_all isIdentChar w" and ex: "list_ex isLetterOrHyphen w" by simp_all
  let ?P = "\<lambda>c. \<not> isLetterOrHyphen c"
  define ds where "ds = takeWhile ?P w"
  define r where "r = dropWhile ?P w"
  have w: "w = ds @ r" by (simp add: ds_def r_def)
  from ex have "r \<noteq> []" by (auto simp: r_def list_ex_iff)
  then obtain l as where r: "r = l # as" by (cases r) auto
  have l: "isLetterOrHyphen l"
    using hd_dropWhile[of ?P w] \<open>r \<noteq> []\<close> r by (simp add: r_def)
  have "list_all isDigit ds"
    unfolding list_all_iff
  proof
    fix c assume c: "c \<in> set ds"
    then have "?P c" unfolding ds_def by (rule set_takeWhileD[THEN conjunct2])
    moreover from c ident have "isIdentChar c" by (auto simp: w list_all_iff)
    ultimately show "isDigit c" by (simp add: isIdentChar_def)
  qed
  then have 1: "ds \<in> lang (Star digitRx)" by (subst lang_digits) simp
  have 2: "[l] \<in> lang letterOrHyphenRx" using l by (simp add: lang_letterOrHyphen)
  have "list_all isIdentChar as" using ident by (simp add: w r)
  then have 3: "as \<in> lang (Star identCharRx)" by (subst lang_identChars) simp
  from concI[OF 1 concI[OF 2 3]] show
    "w \<in> lang (Seq (Star digitRx) (Seq letterOrHyphenRx (Star identCharRx)))"
    unfolding w r lang.simps(3) by simp
qed

lemma lang_prereleaseId: "lang prereleaseIdRx = {w. isPrereleaseIdentifier w}"
proof -
  have "lang prereleaseIdRx = lang numericRx
      \<union> lang (Seq (Star digitRx) (Seq letterOrHyphenRx (Star identCharRx)))"
    by (simp add: prereleaseIdRx_def numericRx_def Un_assoc)
  then show ?thesis
    unfolding lang_numeric lang_letter_idents by (auto simp: isPrereleaseIdentifier_def)
qed

lemma star_identChars: "star (lang identCharRx) = {w. list_all isIdentChar w}"
  using lang_identChars by simp

lemma lang_buildId: "lang (Plus identCharRx) = {w. isBuildIdentifier w}"
proof (intro set_eqI iffI)
  fix w assume "w \<in> lang (Plus identCharRx)"
  then have "w \<in> conc (lang identCharRx) (star (lang identCharRx))" by simp
  then obtain u as where w: "w = u @ as" and u: "u \<in> lang identCharRx"
    and as: "as \<in> star (lang identCharRx)"
    unfolding in_conc by blast
  from u obtain c where c: "u = [c]" "isIdentChar c" unfolding lang_identChar by blast
  from as have "list_all isIdentChar as" unfolding star_identChars by simp
  with c show "w \<in> {w. isBuildIdentifier w}" by (simp add: w isBuildIdentifier_def)
next
  fix w assume "w \<in> {w. isBuildIdentifier w}"
  then have ne: "w \<noteq> []" and all: "list_all isIdentChar w" by (simp_all add: isBuildIdentifier_def)
  then obtain c as where w: "w = c # as" by (cases w) auto
  from all have c: "isIdentChar c" and as: "list_all isIdentChar as" by (simp_all add: w)
  have 1: "[c] \<in> lang identCharRx" unfolding lang_identChar using c by blast
  have 2: "as \<in> star (lang identCharRx)" unfolding star_identChars using as by simp
  from concI[OF 1 2] show "w \<in> lang (Plus identCharRx)" by (simp add: w)
qed

lemma numericIdentifier_digits: "isNumericIdentifier w \<Longrightarrow> list_all isDigit w"
  by (cases w) (auto simp: isNumericIdentifier_def zero_digit nonZero_digit)

lemma prereleaseId_idents: "isPrereleaseIdentifier w \<Longrightarrow> list_all isIdentChar w"
  unfolding isPrereleaseIdentifier_def
  using numericIdentifier_digits[of w] by (auto simp: list_all_iff digit_ident)

lemma prereleaseId_no_dot: "isPrereleaseIdentifier w \<Longrightarrow> CHR ''.'' \<notin> set w"
  using prereleaseId_idents[of w] dot_not_ident by (auto simp: list_all_iff)

lemma buildId_no_dot: "isBuildIdentifier w \<Longrightarrow> CHR ''.'' \<notin> set w"
  using dot_not_ident by (auto simp: isBuildIdentifier_def list_all_iff)

lemma lang_prerelease: "lang prereleaseRx = {s. isPrerelease s}"
proof -
  have "lang prereleaseRx = separated CHR ''.'' {w. isPrereleaseIdentifier w}"
    by (simp add: prereleaseRx_def separated_def lang_prereleaseId)
  also have "\<dots> = {s. isPrerelease s}"
    using separated_iff[of "{w. isPrereleaseIdentifier w}" "CHR ''.''"] prereleaseId_no_dot
    by (auto simp: isPrerelease_def)
  finally show ?thesis .
qed

lemma lang_build: "lang buildRx = {s. isBuildMetadata s}"
proof -
  have "lang buildRx = separated CHR ''.'' {w. isBuildIdentifier w}"
    unfolding buildRx_def lang.simps(3) lang.simps(5) lang_buildId separated_def
    by (simp add: lang.simps(1))
  also have "\<dots> = {s. isBuildMetadata s}"
    using separated_iff[of "{w. isBuildIdentifier w}" "CHR ''.''"] buildId_no_dot
    by (auto simp: isBuildMetadata_def)
  finally show ?thesis .
qed

lemma set_joinWith: "c \<in> set (joinWith [sep] ws) \<Longrightarrow> c = sep \<or> (\<exists>w \<in> set ws. c \<in> set w)"
  by (induction "[sep]" ws rule: joinWith.induct) auto

lemma prerelease_no_plus:
  assumes "isPrerelease s"
  shows "CHR ''+'' \<notin> set s"
proof
  assume "CHR ''+'' \<in> set s"
  then have "CHR ''+'' \<in> set (joinWith [CHR ''.''] (splitOn CHR ''.'' s))"
    by (simp add: joinWith_splitOn)
  from set_joinWith[OF this] obtain w where "w \<in> set (splitOn CHR ''.'' s)" "CHR ''+'' \<in> set w"
    by auto
  with assms have "isIdentChar CHR ''+''"
    using prereleaseId_idents[of w] by (auto simp: isPrerelease_def list_all_iff)
  with plus_not_ident show False by simp
qed

lemma optionalBuild_iff:
  "optionalBuild t \<longleftrightarrow> t = [] \<or> (\<exists>b. t = CHR ''+'' # b \<and> isBuildMetadata b)"
  by (cases t) (auto simp: optionalBuild_def)

lemma lang_optionalBuild:
  "lang (Opt (Seq (Lit CHR ''+'') buildRx)) = {t. optionalBuild t}"
  unfolding optionalBuild_iff lang.simps(7) lang.simps(3) lang_build lang.simps(1)
  by (auto simp: in_conc)

lemma takeWhile_all: "\<forall>c \<in> set p. P c \<Longrightarrow> takeWhile P (p @ t) = p @ takeWhile P t"
  by (induction p) auto

lemma dropWhile_all: "\<forall>c \<in> set p. P c \<Longrightarrow> dropWhile P (p @ t) = dropWhile P t"
  by (induction p) auto

lemma optionalBuild_head:
  assumes "optionalBuild t"
  shows "takeWhile (\<lambda>x. x \<noteq> CHR ''+'') t = [] \<and> dropWhile (\<lambda>x. x \<noteq> CHR ''+'') t = t"
  using assms by (cases t) (auto simp: optionalBuild_def)

lemma semverSuffix_iff:
  "semverSuffix s \<longleftrightarrow>
     optionalBuild s \<or> (\<exists>p t. s = CHR ''-'' # p @ t \<and> isPrerelease p \<and> optionalBuild t)"
proof
  assume a: "semverSuffix s"
  show "optionalBuild s \<or> (\<exists>p t. s = CHR ''-'' # p @ t \<and> isPrerelease p \<and> optionalBuild t)"
  proof (cases s)
    case Nil
    then show ?thesis by (simp add: optionalBuild_def)
  next
    case (Cons c cs)
    show ?thesis
    proof (cases "c = CHR ''-''")
      case True
      let ?p = "takeWhile (\<lambda>x. x \<noteq> CHR ''+'') cs" and ?t = "dropWhile (\<lambda>x. x \<noteq> CHR ''+'') cs"
      from a Cons True have "isPrerelease ?p" "optionalBuild ?t" by (simp_all add: semverSuffix_def)
      moreover have "s = CHR ''-'' # ?p @ ?t" using Cons True by simp
      ultimately show ?thesis by blast
    next
      case False
      with a Cons show ?thesis by (simp add: semverSuffix_def)
    qed
  qed
next
  assume "optionalBuild s \<or> (\<exists>p t. s = CHR ''-'' # p @ t \<and> isPrerelease p \<and> optionalBuild t)"
  then show "semverSuffix s"
  proof (elim disjE exE conjE)
    assume "optionalBuild s"
    then show ?thesis by (cases s) (auto simp: semverSuffix_def optionalBuild_def)
  next
    fix p t assume s: "s = CHR ''-'' # p @ t" and p: "isPrerelease p" and t: "optionalBuild t"
    from prerelease_no_plus[OF p] have np: "\<forall>c \<in> set p. c \<noteq> CHR ''+''" by auto
    from optionalBuild_head[OF t] takeWhile_all[OF np, of t] dropWhile_all[OF np, of t]
    have "takeWhile (\<lambda>x. x \<noteq> CHR ''+'') (p @ t) = p" "dropWhile (\<lambda>x. x \<noteq> CHR ''+'') (p @ t) = t"
      by simp_all
    with p t show ?thesis by (simp add: s semverSuffix_def)
  qed
qed

lemma lang_suffix: "lang suffixRx = {s. semverSuffix s}"
proof -
  have "lang suffixRx =
      conc (insert [] (conc {[CHR ''-'']} {s. isPrerelease s})) {t. optionalBuild t}"
    unfolding suffixRx_def lang.simps(3)[of "Opt (Seq (Lit CHR ''-'') prereleaseRx)"]
      lang_optionalBuild
    by (simp add: lang_prerelease)
  also have "\<dots> = {s. semverSuffix s}"
  proof (intro set_eqI iffI)
    fix s assume "s \<in> conc (insert [] (conc {[CHR ''-'']} {s. isPrerelease s})) {t. optionalBuild t}"
    then obtain u t where s: "s = u @ t" and u: "u = [] \<or> u \<in> conc {[CHR ''-'']} {s. isPrerelease s}"
      and t: "optionalBuild t"
      unfolding in_conc[of s] by blast
    from u show "s \<in> {s. semverSuffix s}"
    proof
      assume "u = []"
      with s t show ?thesis by (simp add: semverSuffix_iff)
    next
      assume "u \<in> conc {[CHR ''-'']} {s. isPrerelease s}"
      then obtain p where "u = CHR ''-'' # p" "isPrerelease p" by (auto simp: in_conc)
      with s t show ?thesis unfolding semverSuffix_iff by auto
    qed
  next
    fix s assume "s \<in> {s. semverSuffix s}"
    then have "optionalBuild s \<or> (\<exists>p t. s = CHR ''-'' # p @ t \<and> isPrerelease p \<and> optionalBuild t)"
      by (simp add: semverSuffix_iff)
    then show "s \<in> conc (insert [] (conc {[CHR ''-'']} {s. isPrerelease s})) {t. optionalBuild t}"
    proof (elim disjE exE conjE)
      assume "optionalBuild s"
      then have "[] @ s \<in> conc (insert [] (conc {[CHR ''-'']} {s. isPrerelease s})) {t. optionalBuild t}"
        by (intro concI) simp_all
      then show ?thesis by simp
    next
      fix p t assume s: "s = CHR ''-'' # p @ t" and p: "isPrerelease p" and t: "optionalBuild t"
      have "[CHR ''-''] @ p \<in> conc {[CHR ''-'']} {s. isPrerelease s}"
        using p by (intro concI) simp_all
      then have "([CHR ''-''] @ p) @ t
          \<in> conc (insert [] (conc {[CHR ''-'']} {s. isPrerelease s})) {t. optionalBuild t}"
        using t by (intro concI) simp_all
      then show ?thesis by (simp add: s)
    qed
  qed
  finally show ?thesis .
qed

lemma numericIdentifier_Some:
  assumes "numericIdentifier s = Some (m, r)"
  shows "s = m @ r \<and> isNumericIdentifier m"
proof (cases s)
  case Nil
  with assms show ?thesis by (simp add: numericIdentifier_def)
next
  case (Cons c cs)
  show ?thesis
  proof (cases "c = CHR ''0''")
    case True
    with assms Cons show ?thesis by (auto simp: numericIdentifier_def isNumericIdentifier_def)
  next
    case False
    with assms Cons have nz: "isNonZeroDigit c" and m: "m = c # takeWhile isDigit cs"
      and r: "r = dropWhile isDigit cs"
      by (auto simp: numericIdentifier_def split: if_splits)
    have "list_all isDigit (takeWhile isDigit cs)"
      by (auto simp: list_all_iff dest: set_takeWhileD)
    with nz m r Cons show ?thesis by (simp add: isNumericIdentifier_def)
  qed
qed

lemma takeWhile_digits:
  assumes "list_all isDigit ds" "r = [] \<or> \<not> isDigit (hd r)"
  shows "takeWhile isDigit (ds @ r) = ds \<and> dropWhile isDigit (ds @ r) = r"
proof -
  from assms(2) have "takeWhile isDigit r = [] \<and> dropWhile isDigit r = r" by (cases r) auto
  moreover from assms(1) have "\<forall>c \<in> set ds. isDigit c" by (simp add: list_all_iff)
  ultimately show ?thesis by (simp add: takeWhile_all dropWhile_all)
qed

lemma numericIdentifier_append:
  assumes "isNumericIdentifier m" "r = [] \<or> \<not> isDigit (hd r)"
  shows "numericIdentifier (m @ r) = Some (m, r)"
proof (cases "m = ''0''")
  case True
  then show ?thesis by (simp add: numericIdentifier_def)
next
  case False
  with assms(1) obtain c ds where m: "m = c # ds" and c: "isNonZeroDigit c"
    and ds: "list_all isDigit ds"
    by (cases m) (auto simp: isNumericIdentifier_def)
  from c zero_not_nonZero have "c \<noteq> CHR ''0''" by auto
  with c takeWhile_digits[OF ds assms(2)] show ?thesis
    by (simp add: m numericIdentifier_def)
qed

lemma semverSuffix_head: "semverSuffix s \<Longrightarrow> s = [] \<or> \<not> isDigit (hd s)"
  unfolding semverSuffix_iff optionalBuild_iff
  using plus_not_digit hyphen_not_digit by auto

lemma semverExec_Some:
  assumes "semverExec v = Some (major, minor, p)"
  shows "\<exists>suffix. v = major @ ''.'' @ minor @ ''.'' @ p @ suffix
       \<and> isNumericIdentifier major \<and> isNumericIdentifier minor \<and> isNumericIdentifier p
       \<and> semverSuffix suffix"
proof -
  have "\<exists>r2 r4 r5. numericIdentifier v = Some (major, CHR ''.'' # r2)
      \<and> numericIdentifier r2 = Some (minor, CHR ''.'' # r4)
      \<and> numericIdentifier r4 = Some (p, r5) \<and> semverSuffix r5"
    using assms unfolding semverExec_def
    by (simp split: option.splits list.splits if_splits prod.splits)
  then obtain r2 r4 r5 where n1: "numericIdentifier v = Some (major, CHR ''.'' # r2)"
    and n2: "numericIdentifier r2 = Some (minor, CHR ''.'' # r4)"
    and n3: "numericIdentifier r4 = Some (p, r5)" and s: "semverSuffix r5"
    by blast
  from numericIdentifier_Some[OF n1] numericIdentifier_Some[OF n2] numericIdentifier_Some[OF n3] s
  have "v = major @ ''.'' @ minor @ ''.'' @ p @ r5
       \<and> isNumericIdentifier major \<and> isNumericIdentifier minor \<and> isNumericIdentifier p
       \<and> semverSuffix r5"
    by simp
  then show ?thesis by blast
qed

lemma semverExec_parts:
  assumes "isNumericIdentifier major" "isNumericIdentifier minor" "isNumericIdentifier p"
    and "semverSuffix suffix"
  shows "semverExec (major @ ''.'' @ minor @ ''.'' @ p @ suffix) = Some (major, minor, p)"
proof -
  have dot: "\<And>t. CHR ''.'' # t = [] \<or> \<not> isDigit (hd (CHR ''.'' # t))"
    using dot_not_digit by simp
  have 1: "numericIdentifier (major @ CHR ''.'' # minor @ CHR ''.'' # p @ suffix)
      = Some (major, CHR ''.'' # minor @ CHR ''.'' # p @ suffix)"
    by (rule numericIdentifier_append[OF assms(1) dot])
  have 2: "numericIdentifier (minor @ CHR ''.'' # p @ suffix) = Some (minor, CHR ''.'' # p @ suffix)"
    by (rule numericIdentifier_append[OF assms(2) dot])
  have 3: "numericIdentifier (p @ suffix) = Some (p, suffix)"
    by (rule numericIdentifier_append[OF assms(3) semverSuffix_head[OF assms(4)]])
  show ?thesis using 1 2 3 assms(4) by (simp add: semverExec_def)
qed

lemma lang_semver:
  "v \<in> lang semverRx \<longleftrightarrow>
     (\<exists>major minor p suffix. v = major @ ''.'' @ minor @ ''.'' @ p @ suffix
        \<and> major \<in> lang numericRx \<and> minor \<in> lang numericRx \<and> p \<in> lang numericRx
        \<and> suffix \<in> lang suffixRx)"
proof
  assume "v \<in> lang semverRx"
  then obtain major t1 where 1: "v = major @ t1" "major \<in> lang numericRx"
      "t1 \<in> conc {''.''} (conc (lang numericRx) (conc {''.''} (conc (lang numericRx) (lang suffixRx))))"
    unfolding semverRx_def lang.simps(3) lang.simps(1) in_conc[of v] by blast
  from 1(3) obtain minor t2 where 2: "t1 = ''.'' @ minor @ t2" "minor \<in> lang numericRx"
      "t2 \<in> conc {''.''} (conc (lang numericRx) (lang suffixRx))"
    unfolding in_conc[of t1] in_conc[of _ "lang numericRx"] by blast
  from 2(3) obtain p suffix where 3: "t2 = ''.'' @ p @ suffix" "p \<in> lang numericRx"
      "suffix \<in> lang suffixRx"
    unfolding in_conc[of t2] in_conc[of _ "lang numericRx"] by blast
  from 1 2 3 have "v = major @ ''.'' @ minor @ ''.'' @ p @ suffix" by simp
  with 1(2) 2(2) 3(2,3) show "\<exists>major minor p suffix. v = major @ ''.'' @ minor @ ''.'' @ p @ suffix
        \<and> major \<in> lang numericRx \<and> minor \<in> lang numericRx \<and> p \<in> lang numericRx
        \<and> suffix \<in> lang suffixRx"
    by blast
next
  assume "\<exists>major minor p suffix. v = major @ ''.'' @ minor @ ''.'' @ p @ suffix
        \<and> major \<in> lang numericRx \<and> minor \<in> lang numericRx \<and> p \<in> lang numericRx
        \<and> suffix \<in> lang suffixRx"
  then obtain major minor p suffix where v: "v = major @ ''.'' @ minor @ ''.'' @ p @ suffix"
    and m: "major \<in> lang numericRx" "minor \<in> lang numericRx" "p \<in> lang numericRx"
    and s: "suffix \<in> lang suffixRx"
    by blast
  have d: "''.'' \<in> {''.''}" by simp
  from concI[OF m(1) concI[OF d concI[OF m(2) concI[OF d concI[OF m(3) s]]]]]
  show "v \<in> lang semverRx"
    unfolding semverRx_def lang.simps(3) lang.simps(1) v by simp
qed

lemma semverExec_lang: "v \<in> lang semverRx \<longleftrightarrow> semverExec v \<noteq> None"
proof
  assume "v \<in> lang semverRx"
  then obtain major minor p suffix where "v = major @ ''.'' @ minor @ ''.'' @ p @ suffix"
    "isNumericIdentifier major" "isNumericIdentifier minor" "isNumericIdentifier p"
    "semverSuffix suffix"
    unfolding lang_semver lang_numeric lang_suffix by blast
  with semverExec_parts show "semverExec v \<noteq> None" by simp
next
  assume "semverExec v \<noteq> None"
  then obtain major minor p where "semverExec v = Some (major, minor, p)" by auto
  from semverExec_Some[OF this] show "v \<in> lang semverRx"
    unfolding lang_semver lang_numeric lang_suffix by blast
qed

lemma patch_parts:
  assumes "major \<in> lang numericRx" "minor \<in> lang numericRx" "p \<in> lang numericRx"
    and "suffix \<in> lang suffixRx"
  shows "patch (major @ ''.'' @ minor @ ''.'' @ p @ suffix)
       = Some (major @ ''.'' @ minor @ ''.'' @ numberToString (plusOne (Number p)))"
proof -
  from assms have "semverExec (major @ ''.'' @ minor @ ''.'' @ p @ suffix) = Some (major, minor, p)"
    unfolding lang_numeric lang_suffix by (intro semverExec_parts) simp_all
  then show ?thesis unfolding patch_def by simp
qed

lemma patch_None_iff: "patch v = None \<longleftrightarrow> v \<notin> lang semverRx"
  by (auto simp: patch_def semverExec_lang split: option.splits)

lemma decimalValue_snoc: "decimalValue (s @ [c]) = 10 * decimalValue s + digitValue c"
  by (simp add: decimalValue_def)

lemma digitValue_digitChar: "d < 10 \<Longrightarrow> digitValue (digitChar d) = d"
  by (simp add: digitValue_def digitChar_def)

lemma decimalValue_showNat: "decimalValue (showNat n) = n"
proof (induction n rule: showNat.induct)
  case (1 n)
  show ?case
  proof (cases "n < 10")
    case True
    then show ?thesis by (simp add: decimalValue_def digitValue_digitChar)
  next
    case False
    have "decimalValue (showNat n)
        = 10 * decimalValue (showNat (n div 10)) + digitValue (digitChar (n mod 10))"
      using False by (subst showNat.simps) (simp add: decimalValue_snoc del: showNat.simps)
    also have "\<dots> = 10 * (n div 10) + n mod 10"
      using "1.IH"[OF False] by (simp add: digitValue_digitChar del: showNat.simps)
    finally show ?thesis by simp
  qed
qed

section \<open>Properties of the runner\<close>

lemma run_trace: "fst (run w tr pkgName cwd cmd) = tr @ [(pkgName, cwd, cmd)]"
  by (simp add: run_def)

lemma testPackages_loop_names:
  "fst ` set (fst (testPackages_loop w packages tr names)) \<subseteq> fst ` set tr \<union> set names"
proof (induction names arbitrary: tr)
  case Nil
  then show ?case by simp
next
  case (Cons n names)
  show ?case
  proof (cases "obj_get packages n")
    case None
    then show ?thesis by auto
  next
    case (Some pkg)
    show ?thesis
    proof (cases "pj_scripts (packageJson pkg)")
      case None
      with Some show ?thesis by auto
    next
      case scripts: (Some scripts)
      show ?thesis
      proof (cases "truthyString (obj_get scripts ''test'')")
        case False
        with Some scripts Cons.IH[of tr] show ?thesis by auto
      next
        case True
        obtain tr' e where r: "run w tr n (dirname (path pkg)) ''yarn test'' = (tr', e)"
          by (cases "run w tr n (dirname (path pkg)) ''yarn test''")
        with run_trace[of w tr n "dirname (path pkg)" "''yarn test''"]
        have tr': "tr' = tr @ [(n, dirname (path pkg), ''yarn test'')]" by simp
        show ?thesis
        proof (cases e)
          case None
          with Some scripts True r Cons.IH[of tr'] tr' show ?thesis by auto
        next
          case (Some err)
          with \<open>obj_get packages n = Some pkg\<close> scripts True r tr' show ?thesis by auto
        qed
      qed
    qed
  qed
qed

lemma publishPackage_names:
  "fst ` set (fst (publishPackage w v packages tr n)) \<subseteq> insert n (fst ` set tr)"
proof (cases "obj_get packages n")
  case None
  then show ?thesis by (auto simp: publishPackage_def)
next
  case (Some pkg)
  have r: "fst ` set (fst (run w t n d c)) \<subseteq> insert n (fst ` set t)" for t d c
    by (auto simp: run_trace)
  define up where "up = (if \<not> isPrisma2OrPhoton n
         then (case run w tr n (dirname (path pkg)) ''yarn upgrade --latest --scope @prisma'' of
                 (tr', Some e) \<Rightarrow>
                   run w tr' n (dirname (path pkg)) ''yarn upgrade --latest --scope @prisma''
               | (tr', None) \<Rightarrow> (tr', None))
         else (tr, None))"
  have u: "fst ` set (fst up) \<subseteq> insert n (fst ` set tr)"
    unfolding up_def using r
    by (auto simp: run_def split: option.splits prod.splits)
  have "publishPackage w v packages tr n =
      (case up of (tr', Some e) \<Rightarrow> (tr', Some e)
       | (tr', None) \<Rightarrow> run w tr' n (dirname (path pkg)) (publishCommand v pkg n))"
    using Some by (simp add: publishPackage_def up_def Let_def)
  with u show ?thesis
    by (cases up) (auto simp: run_def split: option.splits)
qed

lemma publishBatch_names:
  "fst ` set (fst (publishBatch w v packages tr names)) \<subseteq> fst ` set tr \<union> set names"
proof (induction names arbitrary: tr)
  case Nil
  then show ?case by simp
next
  case (Cons n names)
  obtain tr' e where p: "publishPackage w v packages tr n = (tr', e)"
    by (cases "publishPackage w v packages tr n")
  with publishPackage_names[of w v packages tr n]
  have tr': "fst ` set tr' \<subseteq> insert n (fst ` set tr)" by simp
  show ?case
  proof (cases e)
    case None
    with p Cons.IH[of tr'] tr' show ?thesis by auto
  next
    case (Some err)
    with p tr' show ?thesis by auto
  qed
qed

lemma publishBatches_names:
  "fst ` set (fst (publishBatches w v packages tr batches)) \<subseteq> fst ` set tr \<union> set (concat batches)"
proof (induction batches arbitrary: tr)
  case Nil
  then show ?case by simp
next
  case (Cons b batches)
  obtain tr' e where p: "publishBatch w v packages tr b = (tr', e)"
    by (cases "publishBatch w v packages tr b")
  with publishBatch_names[of w v packages tr b]
  have tr': "fst ` set tr' \<subseteq> fst ` set tr \<union> set b" by simp
  show ?case
  proof (cases e)
    case None
    with p Cons.IH[of tr'] tr' show ?thesis by auto
  next
    case (Some err)
    with p tr' show ?thesis by auto
  qed
qed

lemma publishPackages_names:
  "fst ` set (fst (publishPackages tag sh w packages publishOrder)) \<subseteq> set (concat publishOrder)"
  using publishBatches_names[of w _ packages "[]" publishOrder]
  by (auto simp: publishPackages_def split: sum.splits)

lemma testPackages_names:
  "fst ` set (fst (testPackages w packages publishOrder)) \<subseteq> set (concat publishOrder)"
  using testPackages_loop_names[of w packages "[]" "concat publishOrder"]
  by (simp add: testPackages_def flatten_concat)


section \<open>Properties of the publish order\<close>

declare batchingToposort.simps [simp del]






















lemma getPackagesAffectedByChange_wf:
  assumes "wf_graph packages" "plain_keys packages"
    and "getPackagesAffectedByChange packages changes = Inr affected"
  shows "wf_graph affected"
proof -
  from affected_closure[OF assms(1,2), of changes] assms(3)
  have sub: "sub_obj affected packages"
    and closed: "closed_under_usedBy packages (set (obj_keys affected))"
    by auto
  show ?thesis unfolding wf_graph_def
  proof (intro conjI ballI)
    show "distinct (obj_keys affected)" using sub by (simp add: sub_obj_def)
    fix x assume x: "x \<in> set affected"
    obtain k p where kp: "x = (k, p)" by (cases x)
    with x sub have g: "obj_get packages k = Some p" unfolding sub_obj_def by auto
    from x kp have "k \<in> set (obj_keys affected)" by (force simp: obj_keys_def)
    with closed have "dependants packages k \<subseteq> set (obj_keys affected)"
      by (simp add: closed_under_usedBy_def)
    with g wf_graph_lookup(1)[OF assms(1) g]
    show "case x of (k, p) \<Rightarrow> name p = k \<and>
        set (usedBy p) \<union> set (usedByDev p) \<subseteq> set (obj_keys affected)"
      by (simp add: kp dependants_def)
  qed
qed

section \<open>Claims about the package graph\<close>

text \<open>
  Claim C3. For every package graph, \<^verbatim>\<open>getCircularDependencies\<close> returns a non-empty
  result exactly when some package's \<open>uses \<union> usesDev\<close> meets its \<open>usedBy \<union> usedByDev\<close>.
\<close>

theorem getCircularDependencies_nonempty_iff:
  "getCircularDependencies packages \<noteq> [] \<longleftrightarrow>
     (\<exists>pkg \<in> set (obj_values packages).
        set (uses pkg @ usesDev pkg) \<inter> set (usedBy pkg @ usedByDev pkg) \<noteq> {})"
  unfolding getCircularDependencies_eq by (simp add: filter_empty_conv circlesOf_empty)

text \<open>
  The three graphs of the claim, built from manifests: the result is non-empty for the
  mutual dependency, and empty for the chain and for the cycle of length three, in
  which no package's dependencies meet its dependants.
\<close>

theorem getCircularDependencies_examples:
  "getCircularDependencies (getPackageDependencies example_mutual) = [[''@prisma/b''], [''@prisma/a'']]
   \<and> (\<exists>pkg \<in> set (obj_values (getPackageDependencies example_mutual)).
        set (uses pkg @ usesDev pkg) \<inter> set (usedBy pkg @ usedByDev pkg) \<noteq> {})
   \<and> getCircularDependencies (getPackageDependencies example_chain) = []
   \<and> \<not> (\<exists>pkg \<in> set (obj_values (getPackageDependencies example_chain)).
        set (uses pkg @ usesDev pkg) \<inter> set (usedBy pkg @ usedByDev pkg) \<noteq> {})
   \<and> getCircularDependencies (getPackageDependencies example_cycle3) = []
   \<and> \<not> (\<exists>pkg \<in> set (obj_values (getPackageDependencies example_cycle3)).
        set (uses pkg @ usesDev pkg) \<inter> set (usedBy pkg @ usedByDev pkg) \<noteq> {})"
proof -
  have m: "getCircularDependencies (getPackageDependencies example_mutual)
      = [[''@prisma/b''], [''@prisma/a'']]"
    by code_simp
  have c: "getCircularDependencies (getPackageDependencies example_chain) = []"
    by code_simp
  have t: "getCircularDependencies (getPackageDependencies example_cycle3) = []"
    by code_simp
  show ?thesis
    using getCircularDependencies_nonempty_iff [of "getPackageDependencies example_mutual"]
      getCircularDependencies_nonempty_iff [of "getPackageDependencies example_chain"]
      getCircularDependencies_nonempty_iff [of "getPackageDependencies example_cycle3"]
    unfolding m c t by simp
qed

text \<open>
  Claim C4. In a graph built by \<^verbatim>\<open>getPackageDependencies\<close>: if \<open>P\<close> is in the \<open>usedBy\<close>
  list of \<open>Q\<close>, then \<open>Q\<close> is in \<open>uses\<close> or \<open>usesDev\<close> of \<open>P\<close>, and likewise if \<open>P\<close> is in
  the \<open>usedByDev\<close> list of \<open>Q\<close>.
\<close>

theorem edge_symmetry:
  assumes "obj_get (getPackageDependencies packages) Q = Some q"
  shows "(P \<in> set (usedBy q) \<longrightarrow>
            (\<exists>p. obj_get (getPackageDependencies packages) P = Some p \<and>
                 Q \<in> set (uses p) \<union> set (usesDev p)))
       \<and> (P \<in> set (usedByDev q) \<longrightarrow>
            (\<exists>p. obj_get (getPackageDependencies packages) P = Some p \<and>
                 Q \<in> set (uses p) \<union> set (usesDev p)))"
  using usedBy_uses [OF assms, of P] usedByDev_usesDev [OF assms, of P] by blast

theorem edge_symmetry_witness:
  "(\<exists>q p. obj_get (getPackageDependencies example_mutual) ''@prisma/b'' = Some q
        \<and> ''@prisma/a'' \<in> set (usedBy q)
        \<and> obj_get (getPackageDependencies example_mutual) ''@prisma/a'' = Some p
        \<and> ''@prisma/b'' \<in> set (uses p) \<union> set (usesDev p))
   \<and> (\<exists>q p. obj_get (getPackageDependencies example_mutual) ''@prisma/a'' = Some q
        \<and> ''@prisma/b'' \<in> set (usedByDev q)
        \<and> obj_get (getPackageDependencies example_mutual) ''@prisma/b'' = Some p
        \<and> ''@prisma/a'' \<in> set (uses p) \<union> set (usesDev p))"
proof -
  let ?g = "getPackageDependencies example_mutual"
  have "case obj_get ?g ''@prisma/b'' of None \<Rightarrow> False | Some q \<Rightarrow> ''@prisma/a'' \<in> set (usedBy q)"
    by code_simp
  then obtain qb where qb: "obj_get ?g ''@prisma/b'' = Some qb" "''@prisma/a'' \<in> set (usedBy qb)"
    by (auto split: option.splits)
  have "case obj_get ?g ''@prisma/a'' of None \<Rightarrow> False | Some q \<Rightarrow> ''@prisma/b'' \<in> set (usedByDev q)"
    by code_simp
  then obtain qa where qa: "obj_get ?g ''@prisma/a'' = Some qa" "''@prisma/b'' \<in> set (usedByDev qa)"
    by (auto split: option.splits)
  from edge_symmetry [OF qb(1), of "''@prisma/a''"] qb
  have 1: "\<exists>q p. obj_get ?g ''@prisma/b'' = Some q \<and> ''@prisma/a'' \<in> set (usedBy q)
        \<and> obj_get ?g ''@prisma/a'' = Some p \<and> ''@prisma/b'' \<in> set (uses p) \<union> set (usesDev p)"
    by blast
  from edge_symmetry [OF qa(1), of "''@prisma/b''"] qa
  have 2: "\<exists>q p. obj_get ?g ''@prisma/a'' = Some q \<and> ''@prisma/b'' \<in> set (usedByDev q)
        \<and> obj_get ?g ''@prisma/b'' = Some p \<and> ''@prisma/a'' \<in> set (uses p) \<union> set (usesDev p)"
    by blast
  from 1 2 show ?thesis by (rule conjI)
qed

text \<open>
  Claim C6 says that after graph construction every name in a \<open>uses\<close> or \<open>usesDev\<close>
  list is a key of the discovered package set. The package \<open>@prisma/b\<close> of
  \<open>example_external\<close> depends on \<open>@prisma/ext\<close>, which is not discovered: the name stays
  in \<open>uses\<close>, and the only effect of its absence is the message.
\<close>

theorem uses_keeps_undiscovered_name:
  "obj_keys (getPackageDependencies example_external) = [''@prisma/b'']
   \<and> map (uses \<circ> snd) (getPackageDependencies example_external) = [[''@prisma/ext'']]
   \<and> snd (getPackageDependencies_run example_external) = [skipping ''@prisma/ext'']"
  by code_simp

text \<open>
  Claim C6, amended. After graph construction the \<open>uses\<close> and \<open>usesDev\<close> lists of every
  package are the keys of its manifest's \<^verbatim>\<open>dependencies\<close> and \<^verbatim>\<open>devDependencies\<close> that
  start with \<^verbatim>\<open>@prisma\<close>, whether or not they are keys of the discovered package set. A
  name that is not discovered stays in the list, is reported by a message and gets no
  reverse edge: every name in a \<open>usedBy\<close> or \<open>usedByDev\<close> list is a key of the
  discovered set.
\<close>

theorem uses_are_namespace_dependencies:
  assumes "obj_get (getPackageDependencies packages) P = Some p"
  shows "uses p = getPrismaDependencies (pj_dependencies (packageJson p))
       \<and> usesDev p = getPrismaDependencies (pj_devDependencies (packageJson p))
       \<and> (\<forall>d \<in> set (uses p) \<union> set (usesDev p).
            startsWith d ''@prisma'' \<and>
            (d \<notin> set (obj_keys (getPackageDependencies packages)) \<longrightarrow>
               skipping d \<in> set (snd (getPackageDependencies_run packages))))
       \<and> set (usedBy p) \<union> set (usedByDev p) \<subseteq> set (obj_keys (getPackageDependencies packages))"
proof (intro conjI ballI impI)
  from uses_from_manifest [OF assms]
  show u: "uses p = getPrismaDependencies (pj_dependencies (packageJson p))"
    and v: "usesDev p = getPrismaDependencies (pj_devDependencies (packageJson p))"
    by simp_all
  show "set (usedBy p) \<union> set (usedByDev p) \<subseteq> set (obj_keys (getPackageDependencies packages))"
    by (rule usedBy_keys [OF assms])
  fix d assume d: "d \<in> set (uses p) \<union> set (usesDev p)"
  then show "startsWith d ''@prisma''"
    using u v getPrismaDependencies_prefix by (metis Un_iff)
  assume "d \<notin> set (obj_keys (getPackageDependencies packages))"
  with assms d show "skipping d \<in> set (snd (getPackageDependencies_run packages))"
    by (rule skipped_logged)
qed

theorem uses_are_namespace_dependencies_witness:
  "\<exists>p. obj_get (getPackageDependencies example_external) ''@prisma/b'' = Some p
       \<and> uses p = [''@prisma/ext'']
       \<and> uses p = getPrismaDependencies (pj_dependencies (packageJson p))
       \<and> ''@prisma/ext'' \<notin> set (obj_keys (getPackageDependencies example_external))
       \<and> skipping ''@prisma/ext'' \<in> set (snd (getPackageDependencies_run example_external))
       \<and> set (usedBy p) \<union> set (usedByDev p)
            \<subseteq> set (obj_keys (getPackageDependencies example_external))"
proof -
  let ?g = "getPackageDependencies example_external"
  have "case obj_get ?g ''@prisma/b'' of None \<Rightarrow> False | Some p \<Rightarrow> uses p = [''@prisma/ext'']"
    by code_simp
  then obtain p where p: "obj_get ?g ''@prisma/b'' = Some p" "uses p = [''@prisma/ext'']"
    by (auto split: option.splits)
  have k: "''@prisma/ext'' \<notin> set (obj_keys ?g)"
    by code_simp
  from uses_are_namespace_dependencies [OF p(1)] p k show ?thesis
    by auto
qed

section \<open>Claims about the affected set\<close>




text \<open>
  The diamond: A and B depend on C, D depends on A and on B, and the change is under the
  directory of C. D is reached through A and again through B, and is in the result once.
\<close>

lemma getPackagesAffectedByChange_diamond:
  "map_sum id obj_keys
     (getPackagesAffectedByChange (getPackageDependencies example_diamond)
        [''photonjs/packages/c/src/index.ts''])
   = Inr [''@prisma/c'', ''@prisma/a'', ''@prisma/d'', ''@prisma/b'']"
  by code_simp

text \<open>
  The function returns for every graph and every prototype of the affected set
  (\<^verbatim>\<open>addDependants_loop\<close> is a total function, by the termination proof), with the error of
  reading a property of \<^verbatim>\<open>undefined\<close> when an edge leaves the graph. The workspace of
  \<^verbatim>\<open>constructor\<close> is well formed, and the set that the claim describes for it is that of
  both packages.
\<close>

lemma example_constructor_closure:
  "wf_graph (getPackageDependencies example_constructor)
   \<and> \<not> plain_keys (getPackageDependencies example_constructor)
   \<and> directlyChanged (getPackageDependencies example_constructor)
        [''photonjs/packages/c/src/index.ts''] = {''@prisma/c''}
   \<and> ''constructor'' \<in> dependants (getPackageDependencies example_constructor) ''@prisma/c''
   \<and> \<not> closed_under_usedBy (getPackageDependencies example_constructor) {''@prisma/c''}"
proof -
  let ?g = "getPackageDependencies example_constructor"
  have wf: "wf_graph ?g" by (rule getPackageDependencies_wf)
  have pl: "\<not> plain_keys ?g" by code_simp
  have d: "dependants ?g ''@prisma/c'' = {''constructor''}" by code_simp
  have v: "map name (filter (isChanged [''photonjs/packages/c/src/index.ts'']) (obj_values ?g))
      = [''@prisma/c'']"
    by code_simp
  have "directlyChanged ?g [''photonjs/packages/c/src/index.ts'']
      = set (map name (filter (isChanged [''photonjs/packages/c/src/index.ts'']) (obj_values ?g)))"
    unfolding directlyChanged_def isChanged_iff by auto
  also have "\<dots> = {''@prisma/c''}" unfolding v by simp
  finally have dc: "directlyChanged ?g [''photonjs/packages/c/src/index.ts''] = {''@prisma/c''}" .
  have nc: "\<not> closed_under_usedBy ?g {''@prisma/c''}"
    unfolding closed_under_usedBy_def using d by simp
  from wf pl dc d nc show ?thesis by simp
qed

section \<open>Claims about the change set\<close>

text \<open>
  Claim C5. \<^verbatim>\<open>getChangesFromCommit\<close> throws the error "No changes detected" when the
  output of the diff is empty after trimming, for every commit; what it returns is never
  the empty list, and neither is what \<^verbatim>\<open>getLatestChanges\<close> returns. An empty diff of the
  latest commit, or of any commit with the flag for all repositories when the diffs run,
  makes \<^verbatim>\<open>getLatestChanges\<close> throw that error, and the run ends with it before any
  command is run.
\<close>

theorem empty_change_set_aborts:
  "(\<forall>out. sh (dir commit) (diffTreeCommand commit) = Inr out \<and> trim out = []
       \<longrightarrow> getChangesFromCommit sh pathJoin commit = Inl NoChangesDetected)
   \<and> (\<forall>changes. getChangesFromCommit sh pathJoin commit = Inr changes \<longrightarrow> changes \<noteq> [])
   \<and> (\<forall>changes. commits \<noteq> [] \<and> getLatestChanges sh pathJoin allRepos commits = Inr changes
       \<longrightarrow> changes \<noteq> [])
   \<and> (\<forall>out rest. commits = commit # rest \<and> sh (dir commit) (diffTreeCommand commit) = Inr out
          \<and> trim out = []
       \<longrightarrow> getLatestChanges sh pathJoin False commits = Inl NoChangesDetected)
   \<and> ((\<forall>c \<in> set commits. \<exists>out. sh (dir c) (diffTreeCommand c) = Inr out)
        \<and> (\<exists>c \<in> set commits. \<exists>out. sh (dir c) (diffTreeCommand c) = Inr out \<and> trim out = [])
       \<longrightarrow> getLatestChanges sh pathJoin True commits = Inl NoChangesDetected)
   \<and> (getCircularDependencies (getPackageDependencies rawPackages) = []
        \<and> getLatestChanges sh pathJoin allRepos commits = Inl NoChangesDetected
       \<longrightarrow> publish topo sh w pathJoin tag publishFlag allRepos rawPackages commits
           = ([], Some NoChangesDetected))"
proof (intro conjI allI impI)
  fix out
  assume "sh (dir commit) (diffTreeCommand commit) = Inr out \<and> trim out = []"
  then show "getChangesFromCommit sh pathJoin commit = Inl NoChangesDetected"
    by (simp add: getChangesFromCommit_blank)
next
  fix changes
  assume "getChangesFromCommit sh pathJoin commit = Inr changes"
  then show "changes \<noteq> []" by (rule getChangesFromCommit_nonempty)
next
  fix changes
  assume "commits \<noteq> [] \<and> getLatestChanges sh pathJoin allRepos commits = Inr changes"
  then show "changes \<noteq> []" using getLatestChanges_nonempty by blast
next
  fix out rest
  assume "commits = commit # rest \<and> sh (dir commit) (diffTreeCommand commit) = Inr out
      \<and> trim out = []"
  then show "getLatestChanges sh pathJoin False commits = Inl NoChangesDetected"
    by (simp add: getLatestChanges_def getChangesFromCommit_blank)
next
  assume "(\<forall>c \<in> set commits. \<exists>out. sh (dir c) (diffTreeCommand c) = Inr out)
      \<and> (\<exists>c \<in> set commits. \<exists>out. sh (dir c) (diffTreeCommand c) = Inr out \<and> trim out = [])"
  then show "getLatestChanges sh pathJoin True commits = Inl NoChangesDetected"
    using getLatestChanges_allRepos_blank by blast
next
  assume "getCircularDependencies (getPackageDependencies rawPackages) = []
      \<and> getLatestChanges sh pathJoin allRepos commits = Inl NoChangesDetected"
  then show "publish topo sh w pathJoin tag publishFlag allRepos rawPackages commits
      = ([], Some NoChangesDetected)"
    by (simp add: publish_aborts)
qed

text \<open>
  A commit whose diff is a blank line ends the run of the chain of three packages with
  the error; a diff of two lines gives two changes.
\<close>

theorem empty_change_set_aborts_witness:
  "example_shell_blank (dir example_commit) (diffTreeCommand example_commit) = Inr [CHR 0x20, CHR 0x0A]
   \<and> trim [CHR 0x20, CHR 0x0A] = []
   \<and> getChangesFromCommit example_shell_blank example_pathJoin example_commit
        = Inl NoChangesDetected
   \<and> getLatestChanges example_shell_blank example_pathJoin False [example_commit]
        = Inl NoChangesDetected
   \<and> getLatestChanges example_shell_blank example_pathJoin True [example_commit]
        = Inl NoChangesDetected
   \<and> getCircularDependencies (getPackageDependencies example_chain) = []
   \<and> publish example_topo_none example_shell_blank example_world_ok example_pathJoin None True False
        example_chain [example_commit] = ([], Some NoChangesDetected)
   \<and> getChangesFromCommit example_shell_changes example_pathJoin example_commit
        = Inr [''lift/src/a.ts'', ''lift/readme.md'']
   \<and> [''lift/src/a.ts'', ''lift/readme.md''] \<noteq> []"
proof -
  have out: "example_shell_blank (dir example_commit) (diffTreeCommand example_commit)
      = Inr [CHR 0x20, CHR 0x0A]"
    by (simp add: example_shell_blank_def)
  have blank: "trim [CHR 0x20, CHR 0x0A] = []"
    by (simp add: trim_def isWhiteSpace_def)
  have circles: "getCircularDependencies (getPackageDependencies example_chain) = []"
    by code_simp
  have changes: "getChangesFromCommit example_shell_changes example_pathJoin example_commit
      = Inr [''lift/src/a.ts'', ''lift/readme.md'']"
    by (simp add: getChangesFromCommit_def runResult_def example_shell_changes_def
        example_commit_def example_pathJoin_def trim_def isWhiteSpace_def)
  note th = empty_change_set_aborts [of example_shell_blank example_commit example_pathJoin
      "[example_commit]" False example_chain example_topo_none example_world_ok None True]
  note th' = empty_change_set_aborts [of example_shell_changes example_commit example_pathJoin
      "[example_commit]" True example_chain example_topo_none example_world_ok None True]
  from th out blank
  have 1: "getChangesFromCommit example_shell_blank example_pathJoin example_commit
      = Inl NoChangesDetected"
    by blast
  from th out blank
  have 2: "getLatestChanges example_shell_blank example_pathJoin False [example_commit]
      = Inl NoChangesDetected"
    by blast
  from th out blank
  have 3: "getLatestChanges example_shell_blank example_pathJoin True [example_commit]
      = Inl NoChangesDetected"
    by simp
  from th circles 2
  have 4: "publish example_topo_none example_shell_blank example_world_ok example_pathJoin None
      True False example_chain [example_commit] = ([], Some NoChangesDetected)"
    by blast
  from th' changes have 5: "[''lift/src/a.ts'', ''lift/readme.md''] \<noteq> []"
    by blast
  from out blank 1 2 3 circles 4 changes 5 show ?thesis by (intro conjI)
qed

section \<open>Claims about the release version\<close>

text \<open>
  Claim C10. In \<^verbatim>\<open>getNewPrisma2Version\<close> without the override of the environment, an alpha
  increment of 0 is discarded by the truthiness filter, and when none of the four
  version strings has a positive alpha increment the maximum is taken over the empty
  list: the function returns the string \<^verbatim>\<open>2.0.0-alpha.-Infinity\<close> and throws nothing.
\<close>

theorem getNewPrisma2Version_no_positive_alpha:
  assumes "tag = None \<or> tag = Some []"
    and "obj_get packages ''prisma2'' = Some prisma2Pkg"
    and "obj_get packages ''@prisma/photon'' = Some photonPkg"
    and "sh ''.'' ''npm info prisma2@alpha version'' = Inr remotePrisma2Version"
    and "sh ''.'' ''npm info @prisma/photon@alpha version'' = Inr remotePhotonVersion"
    and "\<forall>v \<in> set [version prisma2Pkg, version photonPkg, remotePrisma2Version, remotePhotonVersion].
           alphaOf v = None \<or> alphaOf v = Some (Finite 0)"
  shows "Finite 0 \<notin> set (alphaVersions versions)
       \<and> alphaVersions
            [version prisma2Pkg, version photonPkg, remotePrisma2Version, remotePhotonVersion] = []
       \<and> Math_max [] = NegInfinity
       \<and> getNewPrisma2Version tag sh packages = Inr ''2.0.0-alpha.-Infinity''"
proof (intro conjI)
  show "Finite 0 \<notin> set (alphaVersions versions)"
    using alphaVersions_positive [of "Finite 0" versions] by auto
  show e: "alphaVersions
      [version prisma2Pkg, version photonPkg, remotePrisma2Version, remotePhotonVersion] = []"
    using assms(6) by (rule alphaVersions_empty)
  show "Math_max [] = NegInfinity" by (simp add: Math_max_def)
  show "getNewPrisma2Version tag sh packages = Inr ''2.0.0-alpha.-Infinity''"
    using getNewPrisma2Version_no_override [where sh = sh and tag = tag and packages = packages
        and prisma2Pkg = prisma2Pkg and photonPkg = photonPkg
        and remotePrisma2Version = remotePrisma2Version
        and remotePhotonVersion = remotePhotonVersion] assms(1-5) nextAlpha_empty [OF e]
    by simp
qed

text \<open>Every version, local and remote, is the first alpha, \<^verbatim>\<open>2.0.0-alpha.0\<close>.\<close>

theorem getNewPrisma2Version_no_positive_alpha_witness:
  "alphaOf ''2.0.0-alpha.0'' = Some (Finite 0)
   \<and> alphaVersions [''2.0.0-alpha.0'', ''2.0.0-alpha.0'', ''2.0.0-alpha.0'', ''2.0.0-alpha.0''] = []
   \<and> getNewPrisma2Version None example_shell_alpha0 (getPackageDependencies example_release)
        = Inr ''2.0.0-alpha.-Infinity''"
proof -
  let ?g = "getPackageDependencies example_release"
  have a0: "alphaOf ''2.0.0-alpha.0'' = Some (Finite 0)" by code_simp
  have "case obj_get ?g ''prisma2'' of None \<Rightarrow> False | Some p \<Rightarrow> version p = ''2.0.0-alpha.0''"
    by code_simp
  then obtain prisma2Pkg where p: "obj_get ?g ''prisma2'' = Some prisma2Pkg"
      "version prisma2Pkg = ''2.0.0-alpha.0''"
    by (auto split: option.splits)
  have "case obj_get ?g ''@prisma/photon'' of None \<Rightarrow> False
        | Some p \<Rightarrow> version p = ''2.0.0-alpha.0''"
    by code_simp
  then obtain photonPkg where q: "obj_get ?g ''@prisma/photon'' = Some photonPkg"
      "version photonPkg = ''2.0.0-alpha.0''"
    by (auto split: option.splits)
  have s1: "example_shell_alpha0 ''.'' ''npm info prisma2@alpha version'' = Inr ''2.0.0-alpha.0''"
    and s2: "example_shell_alpha0 ''.'' ''npm info @prisma/photon@alpha version''
      = Inr ''2.0.0-alpha.0''"
    by (simp_all add: example_shell_alpha0_def)
  have h: "\<forall>v \<in> set [version prisma2Pkg, version photonPkg, ''2.0.0-alpha.0'', ''2.0.0-alpha.0''].
      alphaOf v = None \<or> alphaOf v = Some (Finite 0)"
    using a0 p(2) q(2) by simp
  from getNewPrisma2Version_no_positive_alpha [where sh = example_shell_alpha0 and tag = None
      and packages = ?g and prisma2Pkg = prisma2Pkg and photonPkg = photonPkg
      and remotePrisma2Version = "''2.0.0-alpha.0''" and remotePhotonVersion = "''2.0.0-alpha.0''"]
    p(1) q(1) s1 s2 h
  have "getNewPrisma2Version None example_shell_alpha0 ?g = Inr ''2.0.0-alpha.-Infinity''"
    and "alphaVersions [version prisma2Pkg, version photonPkg, ''2.0.0-alpha.0'', ''2.0.0-alpha.0''] = []"
    by simp_all
  with a0 p(2) q(2) show ?thesis by simp
qed

text \<open>
  Claim C7 gives a package of the core set the release version
  \<^verbatim>\<open>2.0.0-alpha.(max+1)\<close>, where \<open>max\<close> is the greatest alpha increment of the local and
  remote versions. In a workspace whose versions are all \<^verbatim>\<open>2.0.0-alpha.0\<close> that is
  \<^verbatim>\<open>2.0.0-alpha.1\<close>; the run publishes the two packages as \<^verbatim>\<open>2.0.0-alpha.-Infinity\<close>.
\<close>

theorem publishPackages_first_alpha:
  "publishPackages None example_shell_alpha0 example_world_ok
     (getPackageDependencies example_release)
     [[''@prisma/get-platform''], [''@prisma/photon''], [''prisma2'']]
   = ([(''@prisma/get-platform'', ''photonjs/packages/get-platform'',
          ''yarn upgrade --latest --scope @prisma''),
       (''@prisma/get-platform'', ''photonjs/packages/get-platform'',
          ''yarn publish --tag latest --new-version 0.1.4''),
       (''@prisma/photon'', ''photonjs/packages/photon'',
          ''yarn publish --tag alpha --new-version 2.0.0-alpha.-Infinity''),
       (''prisma2'', ''prisma2/cli/prisma2'',
          ''yarn publish --tag alpha --new-version 2.0.0-alpha.-Infinity'')],
      None)"
  by code_simp

text \<open>
  The same through \<^verbatim>\<open>publish\<close>, which drops the first three batches: in the workspace of
  five levels the two packages are in the fourth and the fifth batch of the modelled sort,
  and they are published as \<^verbatim>\<open>2.0.0-alpha.-Infinity\<close>.
\<close>

lemma publish_first_alpha:
  "publish batchingToposort example_shell_release example_world_ok example_pathJoin None
     True False example_release5 [example_commit_photonjs]
   = ([(''@prisma/photon'', ''photonjs/packages/photon'',
          ''yarn publish --tag alpha --new-version 2.0.0-alpha.-Infinity''),
       (''prisma2'', ''prisma2/cli/prisma2'',
          ''yarn publish --tag alpha --new-version 2.0.0-alpha.-Infinity'')],
      None)"
  by code_simp

text \<open>
  What holds of claim C7: the release version is the override when there is one, it is
  one more than the greatest positive alpha increment when there is one (the increments
  being below \<^verbatim>\<open>2^53\<close>, where the numbers of the script are exact), and the tag and the
  new version of a package are chosen as the claim says.
\<close>

lemma getNewPrisma2Version_override: "t \<noteq> [] \<Longrightarrow> getNewPrisma2Version (Some t) sh packages = Inr t"
  by (simp add: getNewPrisma2Version_def)

lemma getNewPrisma2Version_max_plus_one:
  assumes "tag = None \<or> tag = Some []"
    and "obj_get packages ''prisma2'' = Some prisma2Pkg"
    and "obj_get packages ''@prisma/photon'' = Some photonPkg"
    and "sh ''.'' ''npm info prisma2@alpha version'' = Inr remotePrisma2Version"
    and "sh ''.'' ''npm info @prisma/photon@alpha version'' = Inr remotePhotonVersion"
    and "alphaVersions
           [version prisma2Pkg, version photonPkg, remotePrisma2Version, remotePhotonVersion]
         = map Finite increments"
    and "increments \<noteq> []"
    and "\<forall>n \<in> set increments. n < 2 ^ 53"
  shows "getNewPrisma2Version tag sh packages =
     Inr (''2.0.0-alpha.'' @ showNat (Max (set increments) + 1))"
  using getNewPrisma2Version_no_override [where sh = sh and tag = tag and packages = packages
      and prisma2Pkg = prisma2Pkg and photonPkg = photonPkg
      and remotePrisma2Version = remotePrisma2Version
      and remotePhotonVersion = remotePhotonVersion] assms(1-5)
    nextAlpha_positive [OF assms(6) assms(7) assms(8)]
  by (simp del: showNat.simps)

lemma publishTag_cases:
  "publishTag prisma2Version pkgName =
     (if stringIncludes prisma2Version ''alpha'' \<and> pkgName \<in> {''prisma2'', ''@prisma/photon''}
      then ''alpha'' else ''latest'')"
  by (simp add: publishTag_def isPrisma2OrPhoton_def)

lemma newVersion_cases:
  "newVersion prisma2Version pkg pkgName =
     (if pkgName \<in> {''prisma2'', ''@prisma/photon''} then Some prisma2Version
      else patch (version pkg))"
  by (simp add: newVersion_def isPrisma2OrPhoton_def)

section \<open>Claims about the patch increment\<close>

text \<open>
  Claim C9 has \<^verbatim>\<open>patch\<close> return major, minor and the patch number plus one for every
  valid semantic version. The patch number is read by \<^verbatim>\<open>Number\<close> and incremented as a
  double: \<^verbatim>\<open>1.2.9007199254740992\<close> is a valid semantic version, its patch number is
  \<^verbatim>\<open>2^53\<close>, and \<^verbatim>\<open>patch\<close> returns the version unchanged.
\<close>

theorem patch_not_incremented:
  "''1.2.9007199254740992'' \<in> lang semverRx
   \<and> patch ''1.2.9007199254740992'' = Some ''1.2.9007199254740992''"
proof -
  have e: "semverExec ''1.2.9007199254740992'' = Some (''1'', ''2'', ''9007199254740992'')"
    by code_simp
  then have "''1.2.9007199254740992'' \<in> lang semverRx" by (simp add: semverExec_lang)
  moreover have "decimalValue ''9007199254740992'' = 9007199254740992"
    by (simp add: decimalValue_def digitValue_def)
  then have "numberToString (plusOne (Number ''9007199254740992'')) = ''9007199254740992''"
    by (simp add: Number_def plusOne_def roundDouble_53 numberToString_53)
  with e have "patch ''1.2.9007199254740992'' = Some ''1.2.9007199254740992''"
    by (simp add: patch_def)
  ultimately show ?thesis by simp
qed

text \<open>From \<^verbatim>\<open>10^21\<close> on the number is written with an exponent.\<close>

lemma patch_exponent: "patch ''1.2.1000000000000000000000'' = Some ''1.2.1e+21''"
proof -
  have e: "semverExec ''1.2.1000000000000000000000''
      = Some (''1'', ''2'', ''1000000000000000000000'')"
    by code_simp
  have dv: "decimalValue ''1000000000000000000000'' = 1000000000000000000000"
    by (simp add: decimalValue_def digitValue_def)
  have bl: "bitLength 1000000000000000000000 = 70" "bitLength 1000000000000000000001 = 70"
    "bitLength 10000000000000000000000 = 74" "bitLength 2000000000000000000000 = 71"
    by simp_all
  have rd: "roundDouble 1000000000000000000000 = Finite 1000000000000000000000"
    "roundDouble 1000000000000000000001 = Finite 1000000000000000000000"
    "roundDouble 2000000000000000000000 \<noteq> Finite 1000000000000000000000"
    "roundDouble 10000000000000000000000 \<noteq> Finite 1000000000000000000000"
    by (simp_all add: roundDouble_def Let_def bl del: bitLength.simps)
  have len: "length (showNat 1000000000000000000000) = 22" by simp
  have c: "candidates 1000000000000000000000 (Suc 0) = [(1, 22)]"
    by (simp add: candidates_def len Let_def rd del: showNat.simps)
  have "shortestDecimal 1000000000000000000000 = (1, 22)"
    unfolding shortestDecimal_def upt_18 by (simp add: c del: showNat.simps)
  then have "numberToString (plusOne (Number ''1000000000000000000000'')) = ''1e+21''"
    by (simp add: Number_def dv rd plusOne_def numberToString_def bl digitChar_digits
        del: bitLength.simps)
  with e show ?thesis by (simp add: patch_def)
qed

text \<open>
  Claim C9, for patch numbers below \<^verbatim>\<open>2^53\<close>. For a version string that matches the
  regular expression of semantic versions, \<^verbatim>\<open>patch\<close> returns major, minor and the string
  of the double \<^verbatim>\<open>Number(patch) + 1\<close>, without the prerelease and the build metadata; when
  the patch number is below \<^verbatim>\<open>2^53\<close> that string is the decimal numeral of the patch
  number plus one, and the numeral of a number reads back as that number. For a string
  that does not match, \<^verbatim>\<open>patch\<close> returns \<^verbatim>\<open>null\<close>. \<^verbatim>\<open>publishPackages\<close> takes the result as
  it is for a package outside the core set: the new version is \<^verbatim>\<open>null\<close>, the publish
  command is run with it, and nothing is thrown.
\<close>

theorem patch_semver:
  "(\<forall>major minor p suffix.
       v = major @ ''.'' @ minor @ ''.'' @ p @ suffix
       \<and> major \<in> lang numericRx \<and> minor \<in> lang numericRx \<and> p \<in> lang numericRx
       \<and> suffix \<in> lang suffixRx
       \<longrightarrow> patch v = Some (major @ ''.'' @ minor @ ''.'' @ numberToString (plusOne (Number p)))
         \<and> (decimalValue p < 2 ^ 53
            \<longrightarrow> patch v = Some (major @ ''.'' @ minor @ ''.'' @ showNat (decimalValue p + 1))))
   \<and> decimalValue (showNat n) = n
   \<and> patch ''2.0.1-alpha.5'' = Some ''2.0.2''
   \<and> (v \<in> lang semverRx \<longrightarrow> patch v \<noteq> None)
   \<and> (v \<notin> lang semverRx \<longrightarrow> patch v = None)
   \<and> (\<not> isPrisma2OrPhoton pkgName \<and> version pkg \<notin> lang semverRx
        \<longrightarrow> newVersion prisma2Version pkg pkgName = None
          \<and> publishCommand prisma2Version pkg pkgName
              = ''yarn publish --tag latest --new-version null'')
   \<and> (\<not> isPrisma2OrPhoton pkgName \<and> version pkg \<notin> lang semverRx
        \<and> obj_get packages pkgName = Some pkg
        \<and> w tr (dirname (path pkg)) ''yarn upgrade --latest --scope @prisma'' = None
        \<longrightarrow> publishPackage w prisma2Version packages tr pkgName
            = run w (tr @ [(pkgName, dirname (path pkg), ''yarn upgrade --latest --scope @prisma'')])
                pkgName (dirname (path pkg)) ''yarn publish --tag latest --new-version null'')"
proof (intro conjI allI impI)
  fix major minor p suffix
  assume a: "v = major @ ''.'' @ minor @ ''.'' @ p @ suffix
       \<and> major \<in> lang numericRx \<and> minor \<in> lang numericRx \<and> p \<in> lang numericRx
       \<and> suffix \<in> lang suffixRx"
  then show r: "patch v = Some (major @ ''.'' @ minor @ ''.'' @ numberToString (plusOne (Number p)))"
    using patch_parts [of major minor p suffix] by blast
  assume "decimalValue p < 2 ^ 53"
  then have "numberToString (plusOne (Number p)) = showNat (decimalValue p + 1)"
    by (rule increment_exact)
  with r show "patch v = Some (major @ ''.'' @ minor @ ''.'' @ showNat (decimalValue p + 1))"
    by simp
next
  show "decimalValue (showNat n) = n" by (rule decimalValue_showNat)
next
  show "patch ''2.0.1-alpha.5'' = Some ''2.0.2''" by code_simp
next
  assume "v \<in> lang semverRx"
  then show "patch v \<noteq> None" by (simp add: patch_None_iff)
next
  assume "v \<notin> lang semverRx"
  then show "patch v = None" by (simp add: patch_None_iff)
next
  assume a: "\<not> isPrisma2OrPhoton pkgName \<and> version pkg \<notin> lang semverRx"
  then have n: "patch (version pkg) = None" by (simp add: patch_None_iff)
  with a show "newVersion prisma2Version pkg pkgName = None" by (simp add: newVersion_def)
  from a n show "publishCommand prisma2Version pkg pkgName
      = ''yarn publish --tag latest --new-version null''"
    by (simp add: publishCommand_def publishTag_def newVersion_def templateString_def)
next
  assume a: "\<not> isPrisma2OrPhoton pkgName \<and> version pkg \<notin> lang semverRx
      \<and> obj_get packages pkgName = Some pkg
      \<and> w tr (dirname (path pkg)) ''yarn upgrade --latest --scope @prisma'' = None"
  then have n: "patch (version pkg) = None" by (simp add: patch_None_iff)
  with a have c: "publishCommand prisma2Version pkg pkgName
      = ''yarn publish --tag latest --new-version null''"
    by (simp add: publishCommand_def publishTag_def newVersion_def templateString_def)
  from a show "publishPackage w prisma2Version packages tr pkgName
      = run w (tr @ [(pkgName, dirname (path pkg), ''yarn upgrade --latest --scope @prisma'')])
          pkgName (dirname (path pkg)) ''yarn publish --tag latest --new-version null''"
    unfolding c [symmetric] by (simp add: publishPackage_def Let_def run_def)
qed

text \<open>
  The version of the claim, \<^verbatim>\<open>2.0.1-alpha.5\<close>, and the package \<^verbatim>\<open>@prisma/sdk\<close> at the
  version \<^verbatim>\<open>next\<close>, which is published with the new version \<^verbatim>\<open>null\<close>.
\<close>

theorem patch_semver_witness:
  "''2'' \<in> lang numericRx \<and> ''0'' \<in> lang numericRx \<and> ''1'' \<in> lang numericRx
   \<and> ''-alpha.5'' \<in> lang suffixRx \<and> decimalValue ''1'' < 2 ^ 53
   \<and> patch ''2.0.1-alpha.5'' = Some (''2'' @ ''.'' @ ''0'' @ ''.'' @ showNat (decimalValue ''1'' + 1))
   \<and> showNat (decimalValue ''1'' + 1) = ''2''
   \<and> ''2.0.1-alpha.5'' \<in> lang semverRx
   \<and> ''next'' \<notin> lang semverRx
   \<and> patch ''next'' = None
   \<and> publishPackages (Some ''2.0.0-alpha.31'') example_shell_silent example_world_ok
        (getPackageDependencies example_unversioned) [[''@prisma/sdk'']]
      = ([(''@prisma/sdk'', ''prisma2/cli/sdk'', ''yarn upgrade --latest --scope @prisma''),
          (''@prisma/sdk'', ''prisma2/cli/sdk'', ''yarn publish --tag latest --new-version null'')],
         None)"
proof -
  have n: "''2'' \<in> lang numericRx" "''0'' \<in> lang numericRx" "''1'' \<in> lang numericRx"
    unfolding lang_numeric by (simp_all add: isNumericIdentifier_def isNonZeroDigit_def
        nonZeroDigitChars_def)
  have "semverSuffix ''-alpha.5''" by code_simp
  then have s: "''-alpha.5'' \<in> lang suffixRx" unfolding lang_suffix by simp
  have one: "decimalValue ''1'' = 1" by (simp add: decimalValue_def digitValue_def)
  then have b: "decimalValue ''1'' < 2 ^ 53" by simp
  have sh: "showNat (decimalValue ''1'' + 1) = ''2''" unfolding one by code_simp
  have "semverExec ''2.0.1-alpha.5'' \<noteq> None" by code_simp
  then have m: "''2.0.1-alpha.5'' \<in> lang semverRx" by (simp add: semverExec_lang)
  have "semverExec ''next'' = None" by code_simp
  then have nm: "''next'' \<notin> lang semverRx" by (simp add: semverExec_lang)
  have run: "publishPackages (Some ''2.0.0-alpha.31'') example_shell_silent example_world_ok
        (getPackageDependencies example_unversioned) [[''@prisma/sdk'']]
      = ([(''@prisma/sdk'', ''prisma2/cli/sdk'', ''yarn upgrade --latest --scope @prisma''),
          (''@prisma/sdk'', ''prisma2/cli/sdk'', ''yarn publish --tag latest --new-version null'')],
         None)"
    by code_simp
  have eq: "''2.0.1-alpha.5'' = ''2'' @ ''.'' @ ''0'' @ ''.'' @ ''1'' @ ''-alpha.5''" by simp
  have "patch ''2.0.1-alpha.5''
        = Some (''2'' @ ''.'' @ ''0'' @ ''.'' @ numberToString (plusOne (Number ''1'')))
      \<and> (decimalValue ''1'' < 2 ^ 53
         \<longrightarrow> patch ''2.0.1-alpha.5''
             = Some (''2'' @ ''.'' @ ''0'' @ ''.'' @ showNat (decimalValue ''1'' + 1)))"
    by (rule patch_semver [of "''2.0.1-alpha.5''", THEN conjunct1, rule_format,
          of "''2''" "''0''" "''1''" "''-alpha.5''"])
       (intro conjI eq n s)
  with b have p: "patch ''2.0.1-alpha.5''
      = Some (''2'' @ ''.'' @ ''0'' @ ''.'' @ showNat (decimalValue ''1'' + 1))"
    by blast
  from patch_semver [of "''next''"] nm have q: "patch ''next'' = None" by blast
  from n s b p sh m nm q run show ?thesis by (intro conjI)
qed

section \<open>Claims about the runner\<close>

text \<open>
  Claim C8. Before the tests or the publication run, the first three batches of the
  publish order are dropped: the run is that of the remaining batches, and no command is
  run for a package that is not in one of them.
\<close>

theorem leading_batches_dropped:
  assumes "getCircularDependencies (getPackageDependencies rawPackages) = []"
    and "getLatestChanges sh pathJoin allRepos commits = Inr changes"
    and "getPackagesAffectedByChange (getPackageDependencies rawPackages) changes
           = Inr changedPackages"
    and "getPublishOrder topo changedPackages = Inr publishOrder"
  shows "publish topo sh w pathJoin tag publishFlag allRepos rawPackages commits
           = (if publishFlag then publishPackages tag sh w changedPackages (drop 3 publishOrder)
              else testPackages w changedPackages (drop 3 publishOrder))
       \<and> (\<forall>pkgName. pkgName \<notin> set (concat (drop 3 publishOrder)) \<longrightarrow>
            (\<forall>cwd cmd. (pkgName, cwd, cmd) \<notin>
               set (fst (publish topo sh w pathJoin tag publishFlag allRepos rawPackages commits))))"
proof -
  let ?order = "drop 3 publishOrder"
  have eq: "publish topo sh w pathJoin tag publishFlag allRepos rawPackages commits
      = (if publishFlag then publishPackages tag sh w changedPackages ?order
         else testPackages w changedPackages ?order)"
    using assms by (simp add: publish_def)
  have "fst ` set (fst (publish topo sh w pathJoin tag publishFlag allRepos rawPackages commits))
      \<subseteq> set (concat ?order)"
    unfolding eq
    using publishPackages_names [of tag sh w changedPackages ?order]
      testPackages_names [of w changedPackages ?order]
    by simp
  then have "\<forall>pkgName. pkgName \<notin> set (concat ?order) \<longrightarrow>
      (\<forall>cwd cmd. (pkgName, cwd, cmd) \<notin>
         set (fst (publish topo sh w pathJoin tag publishFlag allRepos rawPackages commits)))"
    by force
  with eq show ?thesis by (rule conjI)
qed

text \<open>
  The chain of five packages with a change under E: all five are affected, the batches
  of E, D and C are dropped, and the tests run for B and A only.
\<close>

theorem leading_batches_dropped_witness:
  "publish example_topo_chain5 example_shell_e example_world_ok example_pathJoin None False False
     example_chain5 [example_commit_photonjs]
   = ([(''@prisma/b'', ''photonjs/packages/b'', ''yarn test''),
       (''@prisma/a'', ''photonjs/packages/a'', ''yarn test'')], None)
   \<and> ''@prisma/e'' \<in> set (concat (take 3
         [[''@prisma/e''], [''@prisma/d''], [''@prisma/c''], [''@prisma/b''], [''@prisma/a'']]))
   \<and> (''@prisma/e'', ''photonjs/packages/e'', ''yarn test'') \<notin>
       set (fst (publish example_topo_chain5 example_shell_e example_world_ok example_pathJoin
                   None False False example_chain5 [example_commit_photonjs]))"
proof -
  let ?g = "getPackageDependencies example_chain5"
  let ?order = "[[''@prisma/e''], [''@prisma/d''], [''@prisma/c''], [''@prisma/b''], [''@prisma/a'']]"
  have run: "publish example_topo_chain5 example_shell_e example_world_ok example_pathJoin None
      False False example_chain5 [example_commit_photonjs]
    = ([(''@prisma/b'', ''photonjs/packages/b'', ''yarn test''),
        (''@prisma/a'', ''photonjs/packages/a'', ''yarn test'')], None)"
    by code_simp
  have circles: "getCircularDependencies ?g = []" by code_simp
  have changes: "getLatestChanges example_shell_e example_pathJoin False [example_commit_photonjs]
      = Inr [''photonjs/packages/e/src/index.ts'']"
    by code_simp
  have "plain_keys ?g" by code_simp
  from affected_closure [OF getPackageDependencies_wf this,
      of "[''photonjs/packages/e/src/index.ts'']"]
  obtain changedPackages where
    affected: "getPackagesAffectedByChange ?g [''photonjs/packages/e/src/index.ts'']
      = Inr changedPackages"
    by blast
  have order: "getPublishOrder example_topo_chain5 changedPackages = Inr ?order"
    by (simp add: getPublishOrder_def example_topo_chain5_def)
  have e: "''@prisma/e'' \<in> set (concat (take 3 ?order))" by simp
  have "''@prisma/e'' \<notin> set (concat (drop 3 ?order))" by simp
  with leading_batches_dropped [OF circles changes affected order,
      of example_world_ok None False]
  have "(''@prisma/e'', ''photonjs/packages/e'', ''yarn test'') \<notin>
      set (fst (publish example_topo_chain5 example_shell_e example_world_ok example_pathJoin
                  None False False example_chain5 [example_commit_photonjs]))"
    by blast
  with run e show ?thesis by (intro conjI)
qed

section \<open>Claims about the publish order\<close>



end
